theory Spec2Isabelle
  imports Main
begin

section \<open>Data model\<close>

text \<open>
  The client (the React component \<open>App\<close>) and the relay (\<open>server.ts\<close>) are embedded
  as pure functions. JavaScript numbers that hold coordinates and counters are integers
  here; array lengths and loop bounds are naturals.
\<close>

datatype difficulty = Beginner | Intermediate | Expert

record gameConfig =
  rows :: nat
  cols :: nat
  mines :: nat

fun CONFIGS :: "difficulty \<Rightarrow> gameConfig" where
  "CONFIGS Beginner = \<lparr>rows = 9, cols = 9, mines = 10\<rparr>"
| "CONFIGS Intermediate = \<lparr>rows = 16, cols = 16, mines = 40\<rparr>"
| "CONFIGS Expert = \<lparr>rows = 16, cols = 30, mines = 99\<rparr>"

record cell =
  isMine :: bool
  isRevealed :: bool
  isFlagged :: bool
  neighborMines :: nat

type_synonym board = "cell list list"

datatype gameStatus = Idle | Playing | Won | Lost

text \<open>The payload of \<open>update-state\<close> and \<open>sync-state\<close>.\<close>

record wireState =
  w_board :: board
  w_status :: gameStatus
  w_minesLeft :: int
  w_seconds :: int
  w_difficulty :: difficulty

text \<open>Messages a client emits on its socket.\<close>

datatype message =
  JoinRoom string
  | UpdateState string wireState
  | CellClick string int int
  | CellFlag string int int
  | ResetGame string

text \<open>
  The component's state as one render sees it: the \<open>useState\<close> values, the two refs
  (\<open>isRemoteUpdate.current\<close>, and whether \<open>socketRef.current\<close> is non-null), and the
  messages emitted on the socket so far.
\<close>

record session =
  board :: board
  status :: gameStatus
  minesLeft :: int
  seconds :: int
  difficulty :: difficulty
  roomId :: string
  isRemoteUpdate :: bool
  socketOpen :: bool
  outbox :: "message list"

text \<open>
  \<open>TypeError\<close> is what JavaScript throws when a property of \<open>undefined\<close> is read, as
  \<open>board[r][c].isRevealed\<close> does when \<open>(r, c)\<close> is outside the array. \<open>NoMoreDraws\<close>
  belongs to the model only: the random source is given as a finite list of draws, and
  the placement loop asked for one more than the list holds.
\<close>

datatype error = TypeError | NoMoreDraws

subsection \<open>Reading and writing a cell\<close>

text \<open>\<open>board[r][c]\<close>: \<open>None\<close> stands for \<open>undefined\<close> (or for the throw at \<open>board[r]\<close>).\<close>

definition cellAt :: "'a list list \<Rightarrow> int \<Rightarrow> int \<Rightarrow> 'a option" where
  "cellAt b r c =
     (if 0 \<le> r \<and> r < int (length b)
      then (let row = b ! nat r in
            if 0 \<le> c \<and> c < int (length row) then Some (row ! nat c) else None)
      else None)"

text \<open>An assignment to a field of the object \<open>board[r][c]\<close>, for a cell that exists.\<close>

definition setCell :: "board \<Rightarrow> int \<Rightarrow> int \<Rightarrow> cell \<Rightarrow> board" where
  "setCell b r c x = b[nat r := (b ! nat r)[nat c := x]]"

subsection \<open>Emitting\<close>

text \<open>\<open>socketRef.current?.emit(...)\<close>: nothing is sent while the socket ref is null.\<close>

definition emit :: "session \<Rightarrow> message \<Rightarrow> message list \<Rightarrow> message list" where
  "emit env m out = (if socketOpen env then out @ [m] else out)"

definition emitState ::
  "session \<Rightarrow> board \<Rightarrow> gameStatus \<Rightarrow> int \<Rightarrow> int \<Rightarrow> difficulty \<Rightarrow> message list \<Rightarrow> message list"
where
  "emitState env newBoard newStatus newMinesLeft newSeconds newDifficulty out =
     (if isRemoteUpdate env then out
      else emit env
             (UpdateState (roomId env)
                \<lparr>w_board = newBoard, w_status = newStatus, w_minesLeft = newMinesLeft,
                 w_seconds = newSeconds, w_difficulty = newDifficulty\<rparr>)
             out)"

subsection \<open>The reveal operation\<close>

text \<open>
  What one run of an event handler has done so far: the contents of \<open>currentBoard\<close>
  (mutated in place), the value of the last \<open>setStatus\<close> call (the closure's status when
  there was none), whether \<open>setBoard\<close> was called, and the messages sent.
\<close>

record run =
  cur :: board
  pending :: gameStatus
  boardSet :: bool
  sent :: "message list"

text \<open>
  The two nested \<open>forEach\<close> of \<open>checkWin\<close>: the counter starts at \<open>0\<close> and goes up by
  one at every cell whose \<open>isRevealed\<close> is set.
\<close>

definition revealedCount :: "board \<Rightarrow> nat" where
  "revealedCount b =
     fold (\<lambda>row count. fold (\<lambda>x count. if isRevealed x then Suc count else count) row count) b 0"

definition checkWin :: "session \<Rightarrow> run \<Rightarrow> run" where
  "checkWin env rn =
     (let config = CONFIGS (difficulty env) in
      if int (revealedCount (cur rn)) = int (rows config) * int (cols config) - int (mines config)
      then rn\<lparr>pending := Won,
              sent := emitState env (cur rn) Won (minesLeft env) (seconds env) (difficulty env) (sent rn)\<rparr>
      else rn\<lparr>sent := emitState env (cur rn) (if status env = Idle then Playing else status env)
                        (minesLeft env) (seconds env) (difficulty env) (sent rn)\<rparr>)"

text \<open>The \<open>forEach\<close> of the losing branch: every mine is marked revealed.\<close>

definition revealMines :: "board \<Rightarrow> board" where
  "revealMines b = map (map (\<lambda>x. if isMine x then x\<lparr>isRevealed := True\<rparr> else x)) b"

text \<open>The pairs \<open>(dr, dc)\<close> of the two nested \<open>for\<close> statements, in the order they run.\<close>

definition offsets :: "(int \<times> int) list" where
  "offsets = [(-1, -1), (-1, 0), (-1, 1), (0, -1), (0, 0), (0, 1), (1, -1), (1, 0), (1, 1)]"

function revealCell :: "session \<Rightarrow> int \<Rightarrow> int \<Rightarrow> run \<Rightarrow> error + run"
  and revealAround :: "session \<Rightarrow> int \<Rightarrow> int \<Rightarrow> (int \<times> int) list \<Rightarrow> run \<Rightarrow> error + run"
where
  "revealCell env r c rn =
     (if r < 0 \<or> r \<ge> int (length (cur rn)) \<or> c < 0 \<or> c \<ge> int (length (cur rn ! 0))
      then Inr rn
      else (case cellAt (cur rn) r c of
              None \<Rightarrow> Inl TypeError
            | Some x \<Rightarrow>
                if isRevealed x \<or> isFlagged x then Inr rn
                else if isMine x
                then Inr (rn\<lparr>cur := revealMines (setCell (cur rn) r c (x\<lparr>isRevealed := True\<rparr>)),
                             pending := Lost,
                             sent := emitState env
                                       (revealMines (setCell (cur rn) r c (x\<lparr>isRevealed := True\<rparr>)))
                                       Lost (minesLeft env) (seconds env) (difficulty env) (sent rn)\<rparr>)
                else (case (if neighborMines x = 0
                            then revealAround env r c offsets
                                   (rn\<lparr>cur := setCell (cur rn) r c (x\<lparr>isRevealed := True\<rparr>)\<rparr>)
                            else Inr (rn\<lparr>cur := setCell (cur rn) r c (x\<lparr>isRevealed := True\<rparr>)\<rparr>)) of
                        Inl e \<Rightarrow> Inl e
                      | Inr rn' \<Rightarrow> Inr (checkWin env (rn'\<lparr>boardSet := True\<rparr>)))))"
| "revealAround env r c [] rn = Inr rn"
| "revealAround env r c (d # ds) rn =
     (case revealCell env (r + fst d) (c + snd d) rn of
        Inl e \<Rightarrow> Inl e
      | Inr rn' \<Rightarrow> revealAround env r c ds rn')"
  by pat_completeness auto


text \<open>
  The recursion ends because every call that goes on marks a cell that was not
  revealed: the number of unrevealed cells is the measure.
\<close>

definition hidden :: "cell list \<Rightarrow> nat" where
  "hidden row = length (filter (\<lambda>x. \<not> isRevealed x) row)"

definition unrevealed :: "board \<Rightarrow> nat" where
  "unrevealed b = sum_list (map hidden b)"

lemma cellAt_SomeD:
  "cellAt (b :: board) r c = Some x \<Longrightarrow>
     0 \<le> r \<and> nat r < length b \<and> 0 \<le> c \<and> nat c < length (b ! nat r) \<and> x = b ! nat r ! nat c"
  by (auto simp: cellAt_def Let_def split: if_splits)

lemma hidden_update_reveal:
  "i < length row \<Longrightarrow> \<not> isRevealed (row ! i) \<Longrightarrow>
   Suc (hidden (row[i := (row ! i)\<lparr>isRevealed := True\<rparr>])) = hidden row"
proof (induction row arbitrary: i)
  case Nil
  then show ?case by simp
next
  case (Cons a row)
  then show ?case by (cases i) (auto simp: hidden_def)
qed

lemma unrevealed_setCell:
  assumes "cellAt b r c = Some x" "\<not> isRevealed x"
  shows "unrevealed (setCell b r c (x\<lparr>isRevealed := True\<rparr>)) < unrevealed b"
proof -
  from assms(1) have r: "nat r < length b" and c: "nat c < length (b ! nat r)"
    and x: "x = b ! nat r ! nat c" using cellAt_SomeD by blast+
  have 1: "Suc (hidden ((b ! nat r)[nat c := x\<lparr>isRevealed := True\<rparr>])) = hidden (b ! nat r)"
    using hidden_update_reveal[OF c] assms(2) x by simp
  have 2: "sum_list (map hidden (b[nat r := (b ! nat r)[nat c := x\<lparr>isRevealed := True\<rparr>]]))
      = sum_list (map hidden b) + hidden ((b ! nat r)[nat c := x\<lparr>isRevealed := True\<rparr>])
          - hidden (b ! nat r)"
    using r by (simp add: map_update sum_list_update)
  have "hidden (b ! nat r) \<in> set (map hidden b)"
    using r by simp
  then have 3: "hidden (b ! nat r) \<le> sum_list (map hidden b)"
    by (simp add: member_le_sum_list)
  from 1 2 3 show ?thesis unfolding unrevealed_def setCell_def by linarith
qed

lemma hidden_revealMines_row:
  "hidden (map (\<lambda>x. if isMine x then x\<lparr>isRevealed := True\<rparr> else x) row) \<le> hidden row"
  unfolding hidden_def by (induction row) auto

lemma unrevealed_revealMines: "unrevealed (revealMines b) \<le> unrevealed b"
proof (induction b)
  case Nil
  show ?case by (simp add: unrevealed_def revealMines_def)
next
  case (Cons row b)
  then show ?case using hidden_revealMines_row[of row]
    by (simp add: unrevealed_def revealMines_def)
qed

lemma cur_checkWin: "cur (checkWin env rn) = cur rn"
  by (simp add: checkWin_def Let_def)

lemma reveal_dom_unrevealed:
  "revealCell_revealAround_dom (Inl (env, r, c, rn)) \<Longrightarrow>
     revealCell env r c rn = Inr rn' \<Longrightarrow> unrevealed (cur rn') \<le> unrevealed (cur rn)"
  "revealCell_revealAround_dom (Inr (env, r, c, ds, rn)) \<Longrightarrow>
     revealAround env r c ds rn = Inr rn'' \<Longrightarrow> unrevealed (cur rn'') \<le> unrevealed (cur rn)"
proof (induction env r c rn and env r c ds rn arbitrary: rn' and rn''
       rule: revealCell_revealAround.pinduct)
  case (1 env r c rn)
  from "1.prems" "1.hyps" show ?case
    apply (simp add: revealCell.psimps split: if_splits option.splits sum.splits)
    subgoal for x
      using unrevealed_revealMines[of "setCell (cur rn) r c (x\<lparr>isRevealed := True\<rparr>)"]
            unrevealed_setCell[of "cur rn" r c x]
      by auto
    subgoal for x rn2
      using "1.IH"[of x rn2] unrevealed_setCell[of "cur rn" r c x]
      by (auto simp: cur_checkWin)
    subgoal for x
      using unrevealed_setCell[of "cur rn" r c x]
      by (auto simp: cur_checkWin)
    done
next
  case (2 env r c rn)
  then show ?case by (simp add: revealAround.psimps)
next
  case (3 env r c d ds rn)
  from "3.prems" "3.hyps" show ?case
    apply (simp add: revealAround.psimps split: sum.splits)
    subgoal for rn1
      using "3.IH"(1)[of rn1] "3.IH"(2)[of rn1 rn''] by simp
    done
qed

termination revealCell
proof (relation "inv_image (less_than <*lex*> less_than)
          (\<lambda>a. case a of Inl (env, r, c, rn) \<Rightarrow> (unrevealed (cur rn), 0)
                     | Inr (env, r, c, ds, rn) \<Rightarrow> (unrevealed (cur rn), Suc (length ds)))",
       goal_cases)
  case 1
  show ?case by (intro wf_inv_image wf_lex_prod wf_less_than)
next
  case (2 env r c rn x)
  then show ?case using unrevealed_setCell[of "cur rn" r c x] by simp
next
  case (3 env r c d ds rn)
  show ?case by simp
next
  case (4 env r c d ds rn rn')
  then show ?case using reveal_dom_unrevealed(1)[of env "r + fst d" "c + snd d" rn rn']
    by auto
qed

declare revealCell.simps [simp del]

subsection \<open>Board generation\<close>

text \<open>
  The \<open>while\<close> loop of \<open>startGame\<close>. Each element of \<open>draws\<close> is one pair
  \<open>(Math.floor(Math.random() * rows), Math.floor(Math.random() * cols))\<close>; the loop
  consumes one pair per iteration.
\<close>

fun placeMines :: "gameConfig \<Rightarrow> int \<Rightarrow> int \<Rightarrow> (nat \<times> nat) list \<Rightarrow> nat \<Rightarrow> board \<Rightarrow> error + board" where
  "placeMines config firstRow firstCol [] minesPlaced b =
     (if minesPlaced < mines config then Inl NoMoreDraws else Inr b)"
| "placeMines config firstRow firstCol (d # ds) minesPlaced b =
     (if minesPlaced < mines config
      then (case cellAt b (int (fst d)) (int (snd d)) of
              None \<Rightarrow> Inl TypeError
            | Some x \<Rightarrow>
                if \<not> isMine x \<and> (int (fst d) \<noteq> firstRow \<or> int (snd d) \<noteq> firstCol)
                then placeMines config firstRow firstCol ds (Suc minesPlaced)
                       (setCell b (int (fst d)) (int (snd d)) (x\<lparr>isMine := True\<rparr>))
                else placeMines config firstRow firstCol ds minesPlaced b)
      else Inr b)"

text \<open>A loop whose body can throw.\<close>

fun forEachE :: "('a \<Rightarrow> 's \<Rightarrow> error + 's) \<Rightarrow> 'a list \<Rightarrow> 's \<Rightarrow> error + 's" where
  "forEachE f [] s = Inr s"
| "forEachE f (x # xs) s = (case f x s of Inl e \<Rightarrow> Inl e | Inr s' \<Rightarrow> forEachE f xs s')"

text \<open>One iteration of the innermost loop: \<open>count++\<close> when the neighbour is a mine.\<close>

definition countStep :: "gameConfig \<Rightarrow> board \<Rightarrow> int \<Rightarrow> int \<Rightarrow> int \<times> int \<Rightarrow> nat \<Rightarrow> error + nat" where
  "countStep config b r c d count =
     (let nr = r + fst d; nc = c + snd d in
      if nr \<ge> 0 \<and> nr < int (rows config) \<and> nc \<ge> 0 \<and> nc < int (cols config)
      then (case cellAt b nr nc of
              None \<Rightarrow> Inl TypeError
            | Some y \<Rightarrow> Inr (if isMine y then Suc count else count))
      else Inr count)"

definition fillCell :: "gameConfig \<Rightarrow> nat \<times> nat \<Rightarrow> board \<Rightarrow> error + board" where
  "fillCell config p b =
     (case cellAt b (int (fst p)) (int (snd p)) of
        None \<Rightarrow> Inl TypeError
      | Some x \<Rightarrow>
          if \<not> isMine x
          then (case forEachE (countStep config b (int (fst p)) (int (snd p))) offsets 0 of
                  Inl e \<Rightarrow> Inl e
                | Inr count \<Rightarrow>
                    Inr (setCell b (int (fst p)) (int (snd p)) (x\<lparr>neighborMines := count\<rparr>)))
          else Inr b)"

text \<open>The cells \<open>(r, c)\<close> in the order the two outer \<open>for\<close> statements visit them (row by row).\<close>

definition positions :: "gameConfig \<Rightarrow> (nat \<times> nat) list" where
  "positions config = List.product [0..<rows config] [0..<cols config]"

definition computeNeighbors :: "gameConfig \<Rightarrow> board \<Rightarrow> error + board" where
  "computeNeighbors config b = forEachE (fillCell config) (positions config) b"

text \<open>Mine placement followed by the neighbour counts: the board \<open>startGame\<close> reveals on.\<close>

definition generate :: "gameConfig \<Rightarrow> int \<Rightarrow> int \<Rightarrow> (nat \<times> nat) list \<Rightarrow> board \<Rightarrow> error + board" where
  "generate config firstRow firstCol draws b =
     (case placeMines config firstRow firstCol draws 0 b of
        Inl e \<Rightarrow> Inl e
      | Inr b1 \<Rightarrow> computeNeighbors config b1)"

subsection \<open>Event handlers\<close>

text \<open>
  A handler is a function of the state its closure sees. \<open>startGame\<close> works on a deep
  copy (\<open>JSON.parse(JSON.stringify(board))\<close>), which reaches the component's state only
  through \<open>setBoard\<close>.
\<close>

definition startGame :: "(nat \<times> nat) list \<Rightarrow> int \<Rightarrow> int \<Rightarrow> session \<Rightarrow> error + session" where
  "startGame draws firstRow firstCol s =
     (case generate (CONFIGS (difficulty s)) firstRow firstCol draws (board s) of
        Inl e \<Rightarrow> Inl e
      | Inr newBoard \<Rightarrow>
          (case revealCell s firstRow firstCol
                  \<lparr>cur = newBoard, pending = Playing, boardSet = False, sent = outbox s\<rparr> of
             Inl e \<Rightarrow> Inl e
           | Inr rn \<Rightarrow>
               Inr (s\<lparr>board := (if boardSet rn then cur rn else board s),
                      status := pending rn, outbox := sent rn\<rparr>)))"

text \<open>
  While playing, \<open>[...board]\<close> copies the outer array only: the rows and cells are the
  ones of the component's state, so every write of \<open>revealCell\<close> lands in it.
\<close>

definition handleCellClick :: "int \<Rightarrow> int \<Rightarrow> bool \<Rightarrow> (nat \<times> nat) list \<Rightarrow> session \<Rightarrow> error + session" where
  "handleCellClick r c remote draws s =
     (if status s = Won \<or> status s = Lost then Inr s
      else (let s1 = (if \<not> remote
                      then s\<lparr>outbox := emit s (CellClick (roomId s) r c) (outbox s)\<rparr>
                      else s) in
            if status s = Idle then startGame draws r c s1
            else (case revealCell s1 r c
                         \<lparr>cur = board s1, pending = status s1, boardSet = False, sent = outbox s1\<rparr> of
                    Inl e \<Rightarrow> Inl e
                  | Inr rn \<Rightarrow>
                      Inr (s1\<lparr>board := cur rn, status := pending rn, outbox := sent rn\<rparr>))))"

text \<open>
  The mine-remaining counter is a JavaScript number, a double. Every integer up to
  \<open>2 ^ 53\<close> in magnitude is a double, and \<open>minesLeft - 1\<close> and \<open>minesLeft + 1\<close> give the
  exact sum rounded to 53 significant bits, ties to the even significand: \<open>toNumber\<close>.
  (A result of \<open>2 ^ 1024\<close> or more would be \<open>Infinity\<close>; no double plus or minus one
  rounds that far.)
\<close>

fun bitlen :: "nat \<Rightarrow> nat" where
  "bitlen n = (if n = 0 then 0 else Suc (bitlen (n div 2)))"

declare bitlen.simps [simp del]

definition toNumber :: "int \<Rightarrow> int" where
  "toNumber n =
     (if \<bar>n\<bar> \<le> 2 ^ 53 then n
      else (let q = 2 ^ (bitlen (nat \<bar>n\<bar>) - 53);
                m = \<bar>n\<bar> div q;
                r = \<bar>n\<bar> mod q;
                m' = (if 2 * r < q then m
                      else if 2 * r > q then m + 1
                      else if even m then m else m + 1)
            in sgn n * (m' * q)))"

text \<open>
  \<open>handleRightClick\<close> without its mouse event (\<open>e.preventDefault()\<close> touches the
  browser only). The status test comes first, so \<open>board[r][c]\<close> is read while playing
  only.
\<close>

definition handleRightClick :: "int \<Rightarrow> int \<Rightarrow> bool \<Rightarrow> session \<Rightarrow> error + session" where
  "handleRightClick r c remote s =
     (if status s = Idle \<or> status s = Won \<or> status s = Lost then Inr s
      else (case cellAt (board s) r c of
              None \<Rightarrow> Inl TypeError
            | Some x \<Rightarrow>
                if isRevealed x then Inr s
                else (let s1 = (if \<not> remote
                                then s\<lparr>outbox := emit s (CellFlag (roomId s) r c) (outbox s)\<rparr>
                                else s);
                          cell = x\<lparr>isFlagged := \<not> isFlagged x\<rparr>;
                          newBoard = setCell (board s) r c cell;
                          newMinesLeft = (if isFlagged cell then toNumber (minesLeft s - 1)
                                          else toNumber (minesLeft s + 1))
                      in Inr (s1\<lparr>board := newBoard, minesLeft := newMinesLeft,
                                 outbox := emitState s newBoard (status s) newMinesLeft (seconds s)
                                             (difficulty s) (outbox s1)\<rparr>))))"

definition blankCell :: cell where
  "blankCell = \<lparr>isMine = False, isRevealed = False, isFlagged = False, neighborMines = 0\<rparr>"

definition freshBoard :: "gameConfig \<Rightarrow> board" where
  "freshBoard config = replicate (rows config) (replicate (cols config) blankCell)"

definition initBoard :: "gameConfig \<Rightarrow> bool \<Rightarrow> session \<Rightarrow> session" where
  "initBoard config remote s =
     (let newBoard = freshBoard config;
          out1 = (if \<not> remote then emit s (ResetGame (roomId s)) (outbox s) else outbox s);
          out2 = (if \<not> remote
                  then emitState s newBoard Idle (int (mines config)) 0 (difficulty s) out1
                  else out1)
      in s\<lparr>board := newBoard, status := Idle, minesLeft := int (mines config), seconds := 0,
            outbox := out2\<rparr>)"

text \<open>The \<open>sync-state\<close> handler, and the callback of its 50 ms timer.\<close>

definition syncState :: "wireState \<Rightarrow> session \<Rightarrow> session" where
  "syncState w s =
     s\<lparr>isRemoteUpdate := True, board := w_board w, status := w_status w,
       minesLeft := w_minesLeft w, seconds := w_seconds w, difficulty := w_difficulty w\<rparr>"

definition echoTimeout :: "session \<Rightarrow> session" where
  "echoTimeout s = s\<lparr>isRemoteUpdate := False\<rparr>"

subsection \<open>The socket listeners\<close>

text \<open>
  The socket effect has the dependency list \<open>[roomId]\<close>: it runs once, in the render in
  which the room is set, and its listeners keep the handlers of that render for good.
  What those handlers see is the state the first \<open>initBoard\<close> left: status idle, the
  blank beginner board, ten mines left, zero seconds, difficulty beginner. The refs and
  the room are read as they are when a message arrives, and the setters act on the
  present state.
\<close>

definition mountClosure :: "session \<Rightarrow> session" where
  "mountClosure s =
     \<lparr>board = freshBoard (CONFIGS Beginner), status = Idle,
      minesLeft = int (mines (CONFIGS Beginner)), seconds = 0, difficulty = Beginner,
      roomId = roomId s, isRemoteUpdate = isRemoteUpdate s, socketOpen = socketOpen s,
      outbox = outbox s\<rparr>"

text \<open>
  \<open>remote-click\<close> calls \<open>handleCellClick(r, c, true)\<close> of that render: no notice is sent,
  and the closure's status being idle, what runs is \<open>startGame\<close> on a copy of the closure's
  board. \<open>setStatus\<close> and \<open>setBoard\<close> change the present session.
\<close>

definition onRemoteClick :: "int \<Rightarrow> int \<Rightarrow> (nat \<times> nat) list \<Rightarrow> session \<Rightarrow> error + session" where
  "onRemoteClick r c draws s =
     (let cl = mountClosure s in
      if status cl = Won \<or> status cl = Lost then Inr s
      else (case generate (CONFIGS (difficulty cl)) r c draws (board cl) of
              Inl e \<Rightarrow> Inl e
            | Inr newBoard \<Rightarrow>
                (case revealCell cl r c
                        \<lparr>cur = newBoard, pending = Playing, boardSet = False, sent = outbox cl\<rparr> of
                   Inl e \<Rightarrow> Inl e
                 | Inr rn \<Rightarrow>
                     Inr (s\<lparr>board := (if boardSet rn then cur rn else board s),
                            status := pending rn, outbox := sent rn\<rparr>))))"

text \<open>
  \<open>remote-flag\<close> calls \<open>handleRightClick(null, r, c, true)\<close> of that render, which
  returns at its status test, before any setter; \<open>remote-reset\<close> calls
  \<open>initBoard(CONFIGS[difficulty], true)\<close> with the closure's difficulty.
\<close>

definition onRemoteFlag :: "int \<Rightarrow> int \<Rightarrow> session \<Rightarrow> error + session" where
  "onRemoteFlag r c s =
     (case handleRightClick r c True (mountClosure s) of Inl e \<Rightarrow> Inl e | Inr s' \<Rightarrow> Inr s)"

definition onRemoteReset :: "session \<Rightarrow> session" where
  "onRemoteReset s = initBoard (CONFIGS (difficulty (mountClosure s))) True s"

text \<open>A client as the socket effect leaves it: \<open>join-room\<close> has been sent.\<close>

definition mounted :: "string \<Rightarrow> session" where
  "mounted room =
     \<lparr>board = freshBoard (CONFIGS Beginner), status = Idle,
      minesLeft = int (mines (CONFIGS Beginner)), seconds = 0, difficulty = Beginner,
      roomId = room, isRemoteUpdate = False, socketOpen = True, outbox = [JoinRoom room]\<rparr>"

subsection \<open>The relay\<close>

text \<open>
  \<open>rooms\<close> is the server's \<open>Map\<close>; \<open>members\<close> is the room membership socket.io keeps
  (\<open>socket.join\<close>). A handler returns the new relay and the set of deliveries
  \<open>(recipient, event)\<close>; \<open>socket.to(room).emit\<close> reaches every socket of the room but the
  emitting one.
\<close>

datatype 'st serverEvent = SyncState 'st | RemoteClick int int | RemoteFlag int int | RemoteReset

record 'st relay =
  rooms :: "string \<rightharpoonup> 'st"
  members :: "string \<Rightarrow> string set"

definition toRoom :: "'st relay \<Rightarrow> string \<Rightarrow> string \<Rightarrow> 'st serverEvent \<Rightarrow> (string \<times> 'st serverEvent) set" where
  "toRoom rl sender room ev = (\<lambda>sid. (sid, ev)) ` (members rl room - {sender})"

definition joinRoom :: "string \<Rightarrow> string \<Rightarrow> 'st relay \<Rightarrow> 'st relay \<times> (string \<times> 'st serverEvent) set" where
  "joinRoom sender room rl =
     (rl\<lparr>members := (members rl)(room := insert sender (members rl room))\<rparr>,
      (case rooms rl room of None \<Rightarrow> {} | Some st \<Rightarrow> {(sender, SyncState st)}))"

definition updateState :: "string \<Rightarrow> string \<Rightarrow> 'st \<Rightarrow> 'st relay \<Rightarrow> 'st relay \<times> (string \<times> 'st serverEvent) set" where
  "updateState sender room st rl =
     (rl\<lparr>rooms := (rooms rl)(room \<mapsto> st)\<rparr>, toRoom rl sender room (SyncState st))"

definition cellClick :: "string \<Rightarrow> string \<Rightarrow> int \<Rightarrow> int \<Rightarrow> 'st relay \<Rightarrow> 'st relay \<times> (string \<times> 'st serverEvent) set" where
  "cellClick sender room r c rl = (rl, toRoom rl sender room (RemoteClick r c))"

definition cellFlag :: "string \<Rightarrow> string \<Rightarrow> int \<Rightarrow> int \<Rightarrow> 'st relay \<Rightarrow> 'st relay \<times> (string \<times> 'st serverEvent) set" where
  "cellFlag sender room r c rl = (rl, toRoom rl sender room (RemoteFlag r c))"

definition resetGame :: "string \<Rightarrow> string \<Rightarrow> 'st relay \<Rightarrow> 'st relay \<times> (string \<times> 'st serverEvent) set" where
  "resetGame sender room rl =
     (rl\<lparr>rooms := (rooms rl)(room := None)\<rparr>, toRoom rl sender room RemoteReset)"

section \<open>Win detection\<close>

text \<open>A board with every flag removed: two boards with the same image differ in flags only.\<close>

definition flagless :: "board \<Rightarrow> board" where
  "flagless b = map (map (\<lambda>x. x\<lparr>isFlagged := False\<rparr>)) b"

definition demoSession :: session where
  "demoSession =
     \<lparr>board = [[blankCell\<lparr>isMine := True\<rparr>, blankCell]], status = Playing, minesLeft = 1,
      seconds = 0, difficulty = Beginner, roomId = ''r'', isRemoteUpdate = False,
      socketOpen = True, outbox = []\<rparr>"

lemma revealedCount_row:
  "fold (\<lambda>x count. if isRevealed x then Suc count else count) row n
     = n + length (filter isRevealed row)"
  by (induction row arbitrary: n) simp_all

lemma revealedCount_rows:
  "fold (\<lambda>row count. fold (\<lambda>x count. if isRevealed x then Suc count else count) row count) b n
     = n + length (filter isRevealed (concat b))"
  by (induction b arbitrary: n) (simp_all add: revealedCount_row)

lemma revealedCount_filter: "revealedCount b = length (filter isRevealed (concat b))"
  by (simp add: revealedCount_def revealedCount_rows)

lemma revealedCount_flagless: "revealedCount (flagless b) = revealedCount b"
proof -
  have "map isRevealed (concat (flagless b)) = map isRevealed (concat b)"
    by (induction b) (simp_all add: flagless_def)
  then have "length (filter id (map isRevealed (concat (flagless b))))
           = length (filter id (map isRevealed (concat b)))"
    by simp
  then show ?thesis by (simp add: revealedCount_filter filter_map comp_def)
qed

text \<open>Boards of the beginner size: 71 cells revealed and 10 hidden; the same with the
  hidden cells flagged; every cell revealed.\<close>

definition nearBoard :: "bool \<Rightarrow> board" where
  "nearBoard flagged =
     replicate 7 (replicate 9 (blankCell\<lparr>isRevealed := True\<rparr>))
     @ [replicate 8 (blankCell\<lparr>isRevealed := True\<rparr>) @ [blankCell\<lparr>isMine := True, isFlagged := flagged\<rparr>],
        replicate 9 (blankCell\<lparr>isMine := True, isFlagged := flagged\<rparr>)]"

definition openBoard :: board where
  "openBoard = replicate 9 (replicate 9 (blankCell\<lparr>isRevealed := True\<rparr>))"

text \<open>
  C4. \<open>checkWin\<close> sets the status to won exactly when the number of revealed cells of the
  board is \<open>rows * cols - mines\<close> of the current difficulty's configuration, and two
  boards that differ only in their flags get the same verdict.
\<close>

theorem checkWin_won_iff:
  "(pending rn \<noteq> Won \<longrightarrow>
      (pending (checkWin env rn) = Won) =
      (int (length (filter isRevealed (concat (cur rn)))) =
         int (rows (CONFIGS (difficulty env))) * int (cols (CONFIGS (difficulty env)))
           - int (mines (CONFIGS (difficulty env)))))
   \<and> (flagless b' = flagless (cur rn) \<longrightarrow>
        pending (checkWin env (rn\<lparr>cur := b'\<rparr>)) = pending (checkWin env rn))"
proof (intro conjI impI)
  assume "pending rn \<noteq> Won"
  then show "(pending (checkWin env rn) = Won) =
      (int (length (filter isRevealed (concat (cur rn)))) =
         int (rows (CONFIGS (difficulty env))) * int (cols (CONFIGS (difficulty env)))
           - int (mines (CONFIGS (difficulty env))))"
    by (simp add: checkWin_def Let_def revealedCount_filter)
next
  assume "flagless b' = flagless (cur rn)"
  then have "revealedCount b' = revealedCount (cur rn)"
    by (metis revealedCount_flagless)
  then show "pending (checkWin env (rn\<lparr>cur := b'\<rparr>)) = pending (checkWin env rn)"
    by (simp add: checkWin_def Let_def)
qed

theorem checkWin_won_iff_witness:
  "pending (checkWin demoSession
      \<lparr>cur = nearBoard False, pending = Playing, boardSet = True, sent = []\<rparr>) = Won
   \<and> pending (checkWin demoSession
      \<lparr>cur = nearBoard True, pending = Playing, boardSet = True, sent = []\<rparr>) = Won
   \<and> pending (checkWin demoSession
      \<lparr>cur = openBoard, pending = Playing, boardSet = True, sent = []\<rparr>) \<noteq> Won
   \<and> pending (checkWin demoSession
      \<lparr>cur = freshBoard (CONFIGS Beginner), pending = Playing, boardSet = True, sent = []\<rparr>) \<noteq> Won"
proof -
  have n: "length (filter isRevealed (concat (nearBoard False))) = 71"
    by code_simp
  have o: "length (filter isRevealed (concat openBoard)) = 81"
    by code_simp
  have f: "length (filter isRevealed (concat (freshBoard (CONFIGS Beginner)))) = 0"
    by code_simp
  have fl: "flagless (nearBoard True) = flagless (nearBoard False)"
    by (simp add: nearBoard_def flagless_def)
  have d: "int (rows (CONFIGS (difficulty demoSession))) * int (cols (CONFIGS (difficulty demoSession)))
             - int (mines (CONFIGS (difficulty demoSession))) = 71"
    by (simp add: demoSession_def)
  have 1: "pending (checkWin demoSession
      \<lparr>cur = nearBoard False, pending = Playing, boardSet = True, sent = []\<rparr>) = Won"
    using checkWin_won_iff [where
      rn = "\<lparr>cur = nearBoard False, pending = Playing, boardSet = True, sent = []\<rparr>"
      and env = demoSession and b' = "nearBoard False"] n d
    by simp
  have 2: "pending (checkWin demoSession
      \<lparr>cur = nearBoard True, pending = Playing, boardSet = True, sent = []\<rparr>) = Won"
    using checkWin_won_iff [where
      rn = "\<lparr>cur = nearBoard False, pending = Playing, boardSet = True, sent = []\<rparr>"
      and env = demoSession and b' = "nearBoard True"] fl 1
    by simp
  have 3: "pending (checkWin demoSession
      \<lparr>cur = openBoard, pending = Playing, boardSet = True, sent = []\<rparr>) \<noteq> Won"
    using checkWin_won_iff [where
      rn = "\<lparr>cur = openBoard, pending = Playing, boardSet = True, sent = []\<rparr>"
      and env = demoSession and b' = openBoard] o d
    by simp
  have 4: "pending (checkWin demoSession
      \<lparr>cur = freshBoard (CONFIGS Beginner), pending = Playing, boardSet = True, sent = []\<rparr>) \<noteq> Won"
    using checkWin_won_iff [where
      rn = "\<lparr>cur = freshBoard (CONFIGS Beginner), pending = Playing, boardSet = True, sent = []\<rparr>"
      and env = demoSession and b' = "freshBoard (CONFIGS Beginner)"] f d
    by simp
  from 1 2 3 4 show ?thesis by blast
qed

section \<open>Finished and idle sessions\<close>

text \<open>
  A handler whose own closure has status won or lost returns the session as it was
  (board, status, counters and outbox), and \<open>handleRightClick\<close> does the same when its
  closure has status idle; \<open>initBoard\<close>, the reset, brings the status back to idle. This
  is what a click on the page meets. A request that comes through the socket meets the
  listeners' closure instead: see the section on remote requests.
\<close>

lemma finished_ignores:
  "(status s = Won \<or> status s = Lost \<longrightarrow>
      handleCellClick r c remote draws s = Inr s \<and> handleRightClick r c remote s = Inr s)
   \<and> (status s = Idle \<longrightarrow> handleRightClick r c remote s = Inr s)
   \<and> (handleRightClick r c remote s = Inr s' \<and> s' \<noteq> s \<longrightarrow> status s = Playing)
   \<and> status (initBoard config remote s) = Idle"
  by (cases "status s")
     (auto simp: handleCellClick_def handleRightClick_def initBoard_def Let_def)

lemma finished_ignores_example:
  "handleCellClick 0 0 False [] (demoSession\<lparr>status := Lost\<rparr>) = Inr (demoSession\<lparr>status := Lost\<rparr>)
   \<and> handleRightClick 0 1 False (demoSession\<lparr>status := Won\<rparr>) = Inr (demoSession\<lparr>status := Won\<rparr>)
   \<and> handleRightClick 0 1 False (demoSession\<lparr>status := Idle\<rparr>) = Inr (demoSession\<lparr>status := Idle\<rparr>)
   \<and> (\<exists>s'. handleRightClick 0 1 False demoSession = Inr s' \<and> s' \<noteq> demoSession)
   \<and> status demoSession = Playing"
proof -
  have a: "handleCellClick 0 0 False [] (demoSession\<lparr>status := Lost\<rparr>)
             = Inr (demoSession\<lparr>status := Lost\<rparr>)"
    using finished_ignores[of "demoSession\<lparr>status := Lost\<rparr>" 0 0 False "[]"] by simp
  have b: "handleRightClick 0 1 False (demoSession\<lparr>status := Won\<rparr>)
             = Inr (demoSession\<lparr>status := Won\<rparr>)"
    using finished_ignores[of "demoSession\<lparr>status := Won\<rparr>" 0 1 False] by simp
  have c: "handleRightClick 0 1 False (demoSession\<lparr>status := Idle\<rparr>)
             = Inr (demoSession\<lparr>status := Idle\<rparr>)"
    using finished_ignores[of "demoSession\<lparr>status := Idle\<rparr>" 0 1 False] by simp
  have d: "\<exists>s'. handleRightClick 0 1 False demoSession = Inr s' \<and> s' \<noteq> demoSession"
    by (simp add: handleRightClick_def demoSession_def cellAt_def setCell_def blankCell_def Let_def)
  then obtain s' where s': "handleRightClick 0 1 False demoSession = Inr s'" "s' \<noteq> demoSession"
    by blast
  have e: "status demoSession = Playing"
    using finished_ignores[where s = demoSession and r = 0 and c = 1 and remote = False and s' = s']
      s' by blast
  from a b c d e show ?thesis by blast
qed

section \<open>The relay's update\<close>

text \<open>
  C8. On \<open>update-state\<close> the relay stores the received state under the room, whatever
  was stored before (an unknown room gets its entry), leaves the other rooms and the
  membership alone, and delivers \<open>sync-state\<close> with that state to exactly the members
  of the room other than the sender.
\<close>

theorem updateState_stores_and_forwards:
  "rooms (fst (updateState sender room st rl)) room = Some st
   \<and> (\<forall>room'. room' \<noteq> room \<longrightarrow>
         rooms (fst (updateState sender room st rl)) room' = rooms rl room')
   \<and> members (fst (updateState sender room st rl)) = members rl
   \<and> snd (updateState sender room st rl)
       = {(sid, SyncState st) | sid. sid \<in> members rl room \<and> sid \<noteq> sender}
   \<and> (\<forall>ev. (sender, ev) \<notin> snd (updateState sender room st rl))
   \<and> (rooms rl room = None \<longrightarrow> room \<in> dom (rooms (fst (updateState sender room st rl))))"
  by (auto simp: updateState_def toRoom_def)

definition demoRelay :: "nat relay" where
  "demoRelay = \<lparr>rooms = Map.empty(''a'' \<mapsto> 1), members = (\<lambda>_. {})(''b'' := {''s1'', ''s2'', ''s3''})\<rparr>"

theorem updateState_stores_and_forwards_witness:
  "rooms demoRelay ''b'' = None
   \<and> rooms (fst (updateState ''s1'' ''b'' 7 demoRelay)) ''b'' = Some 7
   \<and> rooms (fst (updateState ''s1'' ''b'' 7 demoRelay)) ''a'' = Some 1
   \<and> snd (updateState ''s1'' ''b'' 7 demoRelay) = {(''s2'', SyncState 7), (''s3'', SyncState 7)}"
proof -
  have "{(sid, SyncState (7::nat)) | sid. sid \<in> members demoRelay ''b'' \<and> sid \<noteq> ''s1''}
          = {(''s2'', SyncState 7), (''s3'', SyncState 7)}"
    by (auto simp: demoRelay_def)
  moreover have "rooms demoRelay ''b'' = None" "rooms demoRelay ''a'' = Some 1"
    by (simp_all add: demoRelay_def)
  ultimately show ?thesis
    using updateState_stores_and_forwards [of "''s1''" "''b''" 7 demoRelay] by simp
qed

section \<open>Properties of the reveal operation\<close>

text \<open>
  A board is a grid when every row has the length of the first one; the bounds guard of
  \<open>revealCell\<close> compares the column with \<open>currentBoard[0].length\<close> only.
  \<open>fixedPart\<close> is what is left of a board when \<open>isRevealed\<close> is forgotten.
\<close>

definition grid :: "board \<Rightarrow> bool" where
  "grid b = list_all (\<lambda>row. length row = length (b ! 0)) b"

definition fixedPart :: "board \<Rightarrow> (bool \<times> bool \<times> nat) list list" where
  "fixedPart b = map (map (\<lambda>x. (isMine x, isFlagged x, neighborMines x))) b"

lemma fixedPart_lengths: "fixedPart b' = fixedPart b \<Longrightarrow> map length b' = map length b"
proof -
  assume "fixedPart b' = fixedPart b"
  then have "map length (fixedPart b') = map length (fixedPart b)" by simp
  then show ?thesis by (simp add: fixedPart_def comp_def)
qed

lemma grid_lengths: "map length b' = map length b \<Longrightarrow> grid b' = grid b"
proof -
  assume a: "map length b' = map length b"
  have g: "grid b = (\<forall>n \<in> set (map length b). n = (if b = [] then 0 else hd (map length b)))" for b :: board
    by (cases b) (auto simp: grid_def list_all_iff)
  from a have "b' = [] \<longleftrightarrow> b = []" by (metis map_is_Nil_conv)
  with a show ?thesis unfolding g by simp
qed

lemma fixedPart_setCell:
  "cellAt b r c = Some x \<Longrightarrow> fixedPart (setCell b r c (x\<lparr>isRevealed := True\<rparr>)) = fixedPart b"
proof -
  assume a: "cellAt b r c = Some x"
  then have r: "nat r < length b" and c: "nat c < length (b ! nat r)" and x: "x = b ! nat r ! nat c"
    using cellAt_SomeD by blast+
  have "map (\<lambda>x. (isMine x, isFlagged x, neighborMines x)) ((b ! nat r)[nat c := x\<lparr>isRevealed := True\<rparr>])
      = map (\<lambda>x. (isMine x, isFlagged x, neighborMines x)) (b ! nat r)"
    using c x by (simp add: map_update list_update_same_conv)
  then show ?thesis using r
    by (simp add: fixedPart_def setCell_def map_update list_update_same_conv)
qed

lemma fixedPart_revealMines: "fixedPart (revealMines b) = fixedPart b"
  by (simp add: fixedPart_def revealMines_def comp_def if_distrib cong: if_cong)

lemma reveal_fixedPart:
  "revealCell env r c rn = Inr rn' \<Longrightarrow> fixedPart (cur rn') = fixedPart (cur rn)"
  "revealAround env r c ds rn = Inr rn'' \<Longrightarrow> fixedPart (cur rn'') = fixedPart (cur rn)"
proof (induction env r c rn and env r c ds rn arbitrary: rn' and rn''
       rule: revealCell_revealAround.induct)
  case (1 env r c rn)
  from "1.prems" show ?case
    apply (subst (asm) revealCell.simps)
    apply (simp split: if_splits option.splits sum.splits)
    subgoal for x by (auto simp: fixedPart_revealMines fixedPart_setCell)
    subgoal for x rn2 using "1.IH"[of x rn2] by (auto simp: cur_checkWin fixedPart_setCell)
    subgoal for x by (auto simp: cur_checkWin fixedPart_setCell)
    done
next
  case (2 env r c rn)
  then show ?case by simp
next
  case (3 env r c d ds rn)
  from "3.prems" show ?case
    apply (simp split: sum.splits)
    subgoal for rn1 using "3.IH"(1)[of rn1] "3.IH"(2)[of rn1 rn''] by simp
    done
qed

lemma grid_cellAt:
  "grid b \<Longrightarrow> 0 \<le> r \<Longrightarrow> r < int (length b) \<Longrightarrow> 0 \<le> c \<Longrightarrow> c < int (length (b ! 0)) \<Longrightarrow>
     \<exists>x. cellAt b r c = Some x"
  by (auto simp: grid_def list_all_length cellAt_def Let_def)

lemma reveal_total:
  "grid (cur rn) \<Longrightarrow> \<exists>rn'. revealCell env r c rn = Inr rn'"
  "grid (cur rn) \<Longrightarrow> \<exists>rn''. revealAround env r c ds rn = Inr rn''"
proof (induction env r c rn and env r c ds rn 
       rule: revealCell_revealAround.induct)
  case (1 env r c rn)
  show ?case
  proof (cases "r < 0 \<or> r \<ge> int (length (cur rn)) \<or> c < 0 \<or> c \<ge> int (length (cur rn ! 0))")
    case True
    then show ?thesis by (subst revealCell.simps) simp
  next
    case False
    then obtain x where x: "cellAt (cur rn) r c = Some x"
      using grid_cellAt[OF "1.prems", of r c] by auto
    have g: "grid (setCell (cur rn) r c (x\<lparr>isRevealed := True\<rparr>))"
      using "1.prems" fixedPart_setCell[OF x] grid_lengths fixedPart_lengths by blast
    show ?thesis
    proof (cases "\<not> (isRevealed x \<or> isFlagged x) \<and> \<not> isMine x \<and> neighborMines x = 0")
      case True
      with "1.IH"[OF False x] g obtain rn2 where
        "revealAround env r c offsets (rn\<lparr>cur := setCell (cur rn) r c (x\<lparr>isRevealed := True\<rparr>)\<rparr>) = Inr rn2"
        by auto
      with True False x show ?thesis by (subst revealCell.simps) simp
    next
      case F2: False
      with False x show ?thesis by (subst revealCell.simps) auto
    qed
  qed
next
  case (2 env r c rn)
  then show ?case by simp
next
  case (3 env r c d ds rn)
  from "3.IH"(1)[OF "3.prems"] obtain rn1 where 1: "revealCell env (r + fst d) (c + snd d) rn = Inr rn1"
    by blast
  have "grid (cur rn1)"
    using reveal_fixedPart(1)[OF 1] "3.prems" grid_lengths fixedPart_lengths by blast
  from "3.IH"(2)[OF 1 this] 1 show ?case by simp
qed

lemma reveal_sent_suppressed:
  "revealCell env r c rn = Inr rn' \<Longrightarrow> isRemoteUpdate env \<Longrightarrow> sent rn' = sent rn"
  "revealAround env r c ds rn = Inr rn'' \<Longrightarrow> isRemoteUpdate env \<Longrightarrow> sent rn'' = sent rn"
proof (induction env r c rn and env r c ds rn arbitrary: rn' and rn''
       rule: revealCell_revealAround.induct)
  case (1 env r c rn)
  from "1.prems" show ?case
    apply (subst (asm) revealCell.simps)
    apply (simp split: if_splits option.splits sum.splits)
    subgoal for x by (auto simp: emitState_def)
    subgoal for x rn2 using "1.IH"[of x rn2] by (auto simp: checkWin_def emitState_def Let_def)
    subgoal for x by (auto simp: checkWin_def emitState_def Let_def)
    done
next
  case (2 env r c rn)
  then show ?case by simp
next
  case (3 env r c d ds rn)
  from "3.prems" show ?case
    apply (simp split: sum.splits)
    subgoal for rn1 using "3.IH"(1)[of rn1] "3.IH"(2)[of rn1 rn''] by simp
    done
qed

section \<open>Frame and loss\<close>

definition demoRun :: run where
  "demoRun = \<lparr>cur = board demoSession, pending = Playing, boardSet = False, sent = []\<rparr>"

text \<open>
  C10. A call of \<open>revealCell\<close> that returns leaves \<open>isMine\<close>, \<open>isFlagged\<close> and
  \<open>neighborMines\<close> of every cell, and the shape of the board, as they were; on a grid it
  always returns.
\<close>

theorem revealCell_frame:
  "(revealCell env r c rn = Inr rn' \<longrightarrow> fixedPart (cur rn') = fixedPart (cur rn))
   \<and> (grid (cur rn) \<longrightarrow> (\<exists>rn''. revealCell env r c rn = Inr rn''))"
  using reveal_fixedPart(1) reveal_total(1) by blast

theorem revealCell_frame_witness:
  "\<exists>rn'. revealCell demoSession 0 1 demoRun = Inr rn'
      \<and> fixedPart (cur rn') = fixedPart (cur demoRun)
      \<and> map (map isRevealed) (cur rn') = [[True, True]]"
proof -
  have g: "grid (cur demoRun)"
    by (simp add: demoRun_def demoSession_def grid_def)
  with revealCell_frame[of demoSession 0 1 demoRun] obtain rn'
    where rn': "revealCell demoSession 0 1 demoRun = Inr rn'" by blast
  with revealCell_frame[of demoSession 0 1 demoRun rn']
  have f: "fixedPart (cur rn') = fixedPart (cur demoRun)" by blast
  have "map (map isRevealed) (cur (projr (revealCell demoSession 0 1 demoRun))) = [[True, True]]"
    by code_simp
  with rn' f show ?thesis by simp
qed

lemma revealCell_noop:
  "r < 0 \<or> r \<ge> int (length (cur rn)) \<or> c < 0 \<or> c \<ge> int (length (cur rn ! 0)) \<Longrightarrow>
     revealCell env r c rn = Inr rn"
  "cellAt (cur rn) r c = Some x \<Longrightarrow> isRevealed x \<or> isFlagged x \<Longrightarrow> revealCell env r c rn = Inr rn"
  by (subst revealCell.simps, simp)+

lemma handleRightClick_noop:
  "cellAt (board s) r c = Some x \<Longrightarrow> isRevealed x \<Longrightarrow> handleRightClick r c remote s = Inr s"
  by (simp add: handleRightClick_def)

lemma revealMines_all: "\<forall>y \<in> set (concat (revealMines b)). isMine y \<longrightarrow> isRevealed y"
  by (auto simp: revealMines_def)

text \<open>
  C3. While playing on a grid, a click on an unrevealed, unflagged mine ends with status
  lost and with every mine of the board revealed; the mines are those of the board
  before the click.
\<close>

theorem mine_reveal_loses:
  assumes "status s = Playing" and "grid (board s)" and "cellAt (board s) r c = Some x"
    and "isMine x" and "\<not> isRevealed x" and "\<not> isFlagged x"
  shows "\<exists>s'. handleCellClick r c remote draws s = Inr s' \<and> status s' = Lost
          \<and> (\<forall>y \<in> set (concat (board s')). isMine y \<longrightarrow> isRevealed y)
          \<and> fixedPart (board s') = fixedPart (board s)"
proof -
  from assms(3) have r: "0 \<le> r" "nat r < length (board s)" and c: "0 \<le> c" "nat c < length (board s ! nat r)"
    using cellAt_SomeD by blast+
  from assms(2) r have "length (board s ! nat r) = length (board s ! 0)"
    by (simp add: grid_def list_all_length)
  with r c have guard: "\<not> (r < 0 \<or> r \<ge> int (length (board s)) \<or> c < 0 \<or> c \<ge> int (length (board s ! 0)))"
    by auto
  let ?s1 = "if \<not> remote then s\<lparr>outbox := emit s (CellClick (roomId s) r c) (outbox s)\<rparr> else s"
  let ?b = "revealMines (setCell (board s) r c (x\<lparr>isRevealed := True\<rparr>))"
  have b1: "board ?s1 = board s" by simp
  have "revealCell ?s1 r c \<lparr>cur = board ?s1, pending = status ?s1, boardSet = False, sent = outbox ?s1\<rparr>
      = Inr \<lparr>cur = ?b, pending = Lost, boardSet = False,
             sent = emitState ?s1 ?b Lost (minesLeft ?s1) (seconds ?s1) (difficulty ?s1) (outbox ?s1)\<rparr>"
    using guard assms(3-6) by (subst revealCell.simps) (simp only: b1, simp)
  with assms(1) have "handleCellClick r c remote draws s
      = Inr (?s1\<lparr>board := ?b, status := Lost,
                 outbox := emitState ?s1 ?b Lost (minesLeft ?s1) (seconds ?s1) (difficulty ?s1) (outbox ?s1)\<rparr>)"
    by (simp add: handleCellClick_def Let_def)
  moreover have "fixedPart ?b = fixedPart (board s)"
    by (simp add: fixedPart_revealMines fixedPart_setCell[OF assms(3)])
  ultimately show ?thesis using revealMines_all[of "setCell (board s) r c (x\<lparr>isRevealed := True\<rparr>)"]
    by auto
qed

theorem mine_reveal_loses_witness:
  "\<exists>s'. handleCellClick 0 0 False [] demoSession = Inr s' \<and> status s' = Lost
          \<and> (\<forall>y \<in> set (concat (board s')). isMine y \<longrightarrow> isRevealed y)
          \<and> fixedPart (board s') = fixedPart (board demoSession)"
proof -
  have "status demoSession = Playing" "grid (board demoSession)"
    "cellAt (board demoSession) 0 0 = Some (blankCell\<lparr>isMine := True\<rparr>)"
    "isMine (blankCell\<lparr>isMine := True\<rparr>)" "\<not> isRevealed (blankCell\<lparr>isMine := True\<rparr>)"
    "\<not> isFlagged (blankCell\<lparr>isMine := True\<rparr>)"
    by (simp_all add: demoSession_def grid_def cellAt_def blankCell_def)
  then show ?thesis by (rule mine_reveal_loses)
qed

section \<open>Echo suppression\<close>

fun isUpdateState :: "message \<Rightarrow> bool" where
  "isUpdateState (UpdateState room w) = True"
| "isUpdateState m = False"

definition updatesSent :: "message list \<Rightarrow> message list" where
  "updatesSent out = filter isUpdateState out"

lemma updatesSent_emit_other:
  "\<not> isUpdateState m \<Longrightarrow> updatesSent (emit env m out) = updatesSent out"
  by (simp add: updatesSent_def emit_def)

lemma emitState_suppressed: "isRemoteUpdate env \<Longrightarrow> emitState env b st ml sec d out = out"
  by (simp add: emitState_def)

lemma handleRightClick_suppressed:
  assumes "isRemoteUpdate s" "handleRightClick r c remote s = Inr s'"
  shows "updatesSent (outbox s') = updatesSent (outbox s)"
  using assms
  by (auto simp: handleRightClick_def Let_def emitState_suppressed updatesSent_emit_other
           split: if_splits option.splits)

lemma startGame_suppressed:
  assumes "isRemoteUpdate s" "startGame draws r c s = Inr s'"
  shows "outbox s' = outbox s"
  using assms reveal_sent_suppressed(1)[of s r c]
  by (auto simp: startGame_def split: sum.splits)

lemma handleCellClick_suppressed:
  assumes "isRemoteUpdate s" "handleCellClick r c remote draws s = Inr s'"
  shows "updatesSent (outbox s') = updatesSent (outbox s)"
proof -
  let ?s1 = "if \<not> remote then s\<lparr>outbox := emit s (CellClick (roomId s) r c) (outbox s)\<rparr> else s"
  have s1: "isRemoteUpdate ?s1" "updatesSent (outbox ?s1) = updatesSent (outbox s)"
    using assms(1) by (simp_all add: updatesSent_emit_other)
  show ?thesis
  proof (cases "status s = Won \<or> status s = Lost")
    case True
    with assms(2) show ?thesis by (simp add: handleCellClick_def)
  next
    case False
    show ?thesis
    proof (cases "status s = Idle")
      case True
      with False assms(2) have "startGame draws r c ?s1 = Inr s'"
        by (simp add: handleCellClick_def Let_def)
      from startGame_suppressed[OF s1(1) this] s1(2) show ?thesis by simp
    next
      case F2: False
      with False assms(2) obtain rn where
        rn: "revealCell ?s1 r c \<lparr>cur = board ?s1, pending = status ?s1, boardSet = False, sent = outbox ?s1\<rparr> = Inr rn"
        and s': "s' = ?s1\<lparr>board := cur rn, status := pending rn, outbox := sent rn\<rparr>"
        by (auto simp: handleCellClick_def Let_def split: sum.splits if_splits)
      from reveal_sent_suppressed(1)[OF rn s1(1)] have "sent rn = outbox ?s1" by simp
      with s' s1(2) show ?thesis by simp
    qed
  qed
qed

lemma initBoard_suppressed:
  "isRemoteUpdate s \<Longrightarrow> updatesSent (outbox (initBoard config remote s)) = updatesSent (outbox s)"
  by (simp add: initBoard_def Let_def emitState_suppressed updatesSent_emit_other)

text \<open>
  C9. The \<open>sync-state\<close> handler sets the suppression flag; while the flag is set,
  \<open>emitState\<close> sends nothing, and so a reveal, a flag toggle or a reset handled in the
  state a snapshot has just set adds no \<open>update-state\<close> to what the socket has been sent.
\<close>

theorem echo_suppression:
  "isRemoteUpdate (syncState w s)
   \<and> (isRemoteUpdate env \<longrightarrow> emitState env b st ml sec d out = out)
   \<and> (handleCellClick r c remote draws (syncState w s) = Inr s' \<longrightarrow>
        updatesSent (outbox s') = updatesSent (outbox s))
   \<and> (handleRightClick r c remote (syncState w s) = Inr s'' \<longrightarrow>
        updatesSent (outbox s'') = updatesSent (outbox s))
   \<and> updatesSent (outbox (initBoard config remote (syncState w s))) = updatesSent (outbox s)"
proof -
  have f: "isRemoteUpdate (syncState w s)" and o: "outbox (syncState w s) = outbox s"
    by (simp_all add: syncState_def)
  show ?thesis
    using f o emitState_suppressed handleCellClick_suppressed[OF f] handleRightClick_suppressed[OF f]
      initBoard_suppressed[OF f]
    by (metis (no_types))
qed

definition demoWire :: wireState where
  "demoWire = \<lparr>w_board = [[blankCell\<lparr>isMine := True\<rparr>, blankCell\<lparr>neighborMines := 1\<rparr>]],
      w_status = Playing, w_minesLeft = 1, w_seconds = 3, w_difficulty = Beginner\<rparr>"

theorem echo_suppression_witness:
  "emitState (syncState demoWire demoSession) (w_board demoWire) Playing 1 3 Beginner [] = []
   \<and> (\<exists>s'. handleCellClick 0 1 False [] (syncState demoWire demoSession) = Inr s'
          \<and> updatesSent (outbox s') = [])
   \<and> (\<exists>s'. handleRightClick 0 1 False (syncState demoWire demoSession) = Inr s'
          \<and> updatesSent (outbox s') = [])
   \<and> (\<exists>s'. handleCellClick 0 1 False [] (echoTimeout (syncState demoWire demoSession)) = Inr s'
          \<and> updatesSent (outbox s') \<noteq> [])"
proof -
  have a: "isRemoteUpdate (syncState demoWire demoSession)"
    using echo_suppression[of demoWire demoSession] by blast
  have b: "emitState (syncState demoWire demoSession) (w_board demoWire) Playing 1 3 Beginner [] = []"
    using echo_suppression[where env = "syncState demoWire demoSession" and w = demoWire and s = demoSession] by blast
  have o: "updatesSent (outbox demoSession) = []"
    by (simp add: demoSession_def updatesSent_def)
  have "(case handleCellClick 0 1 False [] (syncState demoWire demoSession) of
           Inl err \<Rightarrow> False | Inr s' \<Rightarrow> True)"
    by code_simp
  then obtain s1 where s1: "handleCellClick 0 1 False [] (syncState demoWire demoSession) = Inr s1"
    by (auto split: sum.splits)
  have c: "updatesSent (outbox s1) = []"
    using echo_suppression[where w = demoWire and s = demoSession and s' = s1 and r = 0 and c = 1 and remote = False and draws = "[]"] s1 o
    by simp
  have "(case handleRightClick 0 1 False (syncState demoWire demoSession) of
           Inl err \<Rightarrow> False | Inr s' \<Rightarrow> True)"
    by code_simp
  then obtain s2 where s2: "handleRightClick 0 1 False (syncState demoWire demoSession) = Inr s2"
    by (auto split: sum.splits)
  have d: "updatesSent (outbox s2) = []"
    using echo_suppression[where w = demoWire and s = demoSession and s'' = s2 and r = 0 and c = 1 and remote = False] s2 o
    by simp
  have "(case handleCellClick 0 1 False [] (echoTimeout (syncState demoWire demoSession)) of
           Inl err \<Rightarrow> False | Inr s' \<Rightarrow> updatesSent (outbox s') \<noteq> [])"
    by code_simp
  then have e: "\<exists>s'. handleCellClick 0 1 False [] (echoTimeout (syncState demoWire demoSession)) = Inr s'
          \<and> updatesSent (outbox s') \<noteq> []"
    by (auto split: sum.splits)
  from b s1 c s2 d e show ?thesis by blast
qed

section \<open>Board generation: mines and neighbour counts\<close>

text \<open>
  The reference count of a cell: the mines among its eight neighbours that lie on the
  board. \<open>shaped\<close> says that a board has the rows and columns of a configuration.
\<close>

definition isMineAt :: "board \<Rightarrow> int \<Rightarrow> int \<Rightarrow> bool" where
  "isMineAt b r c = (case cellAt b r c of None \<Rightarrow> False | Some x \<Rightarrow> isMine x)"

definition around :: "(int \<times> int) list" where
  "around = [(-1, -1), (-1, 0), (-1, 1), (0, -1), (0, 1), (1, -1), (1, 0), (1, 1)]"

definition bruteCount :: "board \<Rightarrow> int \<Rightarrow> int \<Rightarrow> nat" where
  "bruteCount b r c = length (filter (\<lambda>d. isMineAt b (r + fst d) (c + snd d)) around)"

definition mineCount :: "board \<Rightarrow> nat" where
  "mineCount b = length (filter isMine (concat b))"

definition shaped :: "gameConfig \<Rightarrow> board \<Rightarrow> bool" where
  "shaped config b = (map length b = replicate (rows config) (cols config))"

lemma cellAt_setCell:
  assumes "cellAt b r c = Some x"
  shows "cellAt (setCell b r c y) r' c' = (if r' = r \<and> c' = c then Some y else cellAt b r' c')"
proof -
  from assms have r: "0 \<le> r" "nat r < length b" and c: "0 \<le> c" "nat c < length (b ! nat r)"
    using cellAt_SomeD by blast+
  then have ri: "r < int (length b)" and ci: "c < int (length (b ! nat r))"
    by auto
  show ?thesis
  proof (cases "0 \<le> r' \<and> r' < int (length b)")
    case False
    then show ?thesis using r by (auto simp: cellAt_def setCell_def)
  next
    case True
    show ?thesis
    proof (cases "r' = r")
      case False
      with True r have "nat r' \<noteq> nat r" by auto
      then show ?thesis using True False by (simp add: cellAt_def setCell_def)
    next
      case R: True
      show ?thesis
      proof (cases "c' = c")
        case True
        with R r c ri ci show ?thesis by (simp add: cellAt_def setCell_def)
      next
        case False
        show ?thesis
        proof (cases "0 \<le> c'")
          case True
          with False c have "nat c' \<noteq> nat c" by auto
          then show ?thesis using R r False by (simp add: cellAt_def setCell_def Let_def)
        next
          case F: False
          then show ?thesis using R r False by (simp add: cellAt_def setCell_def Let_def)
        qed
      qed
    qed
  qed
qed

lemma map_length_setCell: "map length (setCell b r c y) = map length b"
proof (cases "nat r < length b")
  case True
  then show ?thesis by (simp add: setCell_def map_update list_update_same_conv)
next
  case False
  then show ?thesis by (simp add: setCell_def list_update_beyond)
qed

lemma shaped_cellAt:
  assumes "shaped config b"
  shows "(\<exists>x. cellAt b r c = Some x) \<longleftrightarrow> 0 \<le> r \<and> r < int (rows config) \<and> 0 \<le> c \<and> c < int (cols config)"
proof -
  from assms have len: "length b = rows config"
    unfolding shaped_def by (metis length_map length_replicate)
  have row: "length (b ! i) = cols config" if "i < length b" for i
  proof -
    from that have "length (b ! i) = map length b ! i" by simp
    also have "\<dots> = cols config" using assms that len unfolding shaped_def by simp
    finally show ?thesis .
  qed
  show ?thesis
  proof (cases "0 \<le> r \<and> r < int (rows config)")
    case True
    then have "nat r < length b" using len by auto
    from row[OF this] True len show ?thesis by (auto simp: cellAt_def Let_def)
  next
    case False
    then show ?thesis using len by (auto simp: cellAt_def Let_def)
  qed
qed

lemma count_concat:
  "length (filter P (concat b)) = sum_list (map (\<lambda>row. length (filter P row)) b)"
  by (induction b) simp_all

lemma count_row_update:
  "i < length row \<Longrightarrow>
   int (length (filter P (row[i := y])))
     = int (length (filter P row)) + of_bool (P y) - of_bool (P (row ! i))"
proof (induction row arbitrary: i)
  case Nil
  then show ?case by simp
next
  case (Cons a row)
  show ?case
  proof (cases i)
    case 0
    then show ?thesis by simp
  next
    case (Suc n)
    with Cons.prems have "n < length row" by simp
    from Cons.IH[OF this] Suc show ?thesis by simp
  qed
qed

lemma count_setCell:
  assumes "cellAt b r c = Some x"
  shows "int (length (filter P (concat (setCell b r c y))))
           = int (length (filter P (concat b))) + of_bool (P y) - of_bool (P x)"
proof -
  from assms have r: "nat r < length b" and c: "nat c < length (b ! nat r)"
    and x: "x = b ! nat r ! nat c" using cellAt_SomeD by blast+
  let ?f = "\<lambda>row. length (filter P row)"
  let ?row = "(b ! nat r)[nat c := y]"
  have 1: "int (?f ?row) = int (?f (b ! nat r)) + of_bool (P y) - of_bool (P x)"
    using count_row_update[OF c] x by simp
  have 2: "sum_list (map ?f (b[nat r := ?row])) = sum_list (map ?f b) + ?f ?row - ?f (b ! nat r)"
    using r by (simp add: map_update sum_list_update)
  have "?f (b ! nat r) \<in> set (map ?f b)"
    using r by simp
  then have 3: "?f (b ! nat r) \<le> sum_list (map ?f b)"
    by (simp add: member_le_sum_list)
  from 1 2 3 show ?thesis unfolding count_concat setCell_def by linarith
qed

lemma isMineAt_setCell:
  "cellAt b r c = Some x \<Longrightarrow>
     isMineAt (setCell b r c y) r' c' = (if r' = r \<and> c' = c then isMine y else isMineAt b r' c')"
  by (simp add: isMineAt_def cellAt_setCell)

definition otherFields :: "board \<Rightarrow> (bool \<times> bool \<times> nat) list list" where
  "otherFields b = map (map (\<lambda>x. (isRevealed x, isFlagged x, neighborMines x))) b"

lemma otherFields_setCell:
  assumes "cellAt b r c = Some x"
  shows "otherFields (setCell b r c (x\<lparr>isMine := v\<rparr>)) = otherFields b"
proof -
  from assms have r: "nat r < length b" and c: "nat c < length (b ! nat r)"
    and x: "x = b ! nat r ! nat c" using cellAt_SomeD by blast+
  have "map (\<lambda>x. (isRevealed x, isFlagged x, neighborMines x)) ((b ! nat r)[nat c := x\<lparr>isMine := v\<rparr>])
      = map (\<lambda>x. (isRevealed x, isFlagged x, neighborMines x)) (b ! nat r)"
    using c x by (simp add: map_update list_update_same_conv)
  then show ?thesis using r
    by (simp add: otherFields_def setCell_def map_update list_update_same_conv)
qed

lemma mineCount_setCell:
  "cellAt b r c = Some x \<Longrightarrow> \<not> isMine x \<Longrightarrow>
     mineCount (setCell b r c (x\<lparr>isMine := True\<rparr>)) = Suc (mineCount b)"
  using count_setCell[of b r c x isMine "x\<lparr>isMine := True\<rparr>"]
  by (simp add: mineCount_def)

lemma placeMines_result:
  "placeMines config fr fc ds placed b = Inr b' \<Longrightarrow>
     otherFields b' = otherFields b
     \<and> (placed \<le> mines config \<longrightarrow> mineCount b' + placed = mineCount b + mines config)
     \<and> (\<forall>r c. isMineAt b' r c \<longrightarrow> isMineAt b r c \<or> r \<noteq> fr \<or> c \<noteq> fc)"
proof (induction ds arbitrary: placed b)
  case Nil
  then show ?case by (auto split: if_splits)
next
  case (Cons d ds)
  show ?case
  proof (cases "placed < mines config")
    case False
    with Cons.prems show ?thesis by auto
  next
    case True
    with Cons.prems obtain x where x: "cellAt b (int (fst d)) (int (snd d)) = Some x"
      by (auto split: option.splits)
    show ?thesis
    proof (cases "\<not> isMine x \<and> (int (fst d) \<noteq> fr \<or> int (snd d) \<noteq> fc)")
      case False
      with True x Cons.prems have "placeMines config fr fc ds placed b = Inr b'" by auto
      from Cons.IH[OF this] show ?thesis .
    next
      case acc: True
      let ?b1 = "setCell b (int (fst d)) (int (snd d)) (x\<lparr>isMine := True\<rparr>)"
      from acc True x Cons.prems have "placeMines config fr fc ds (Suc placed) ?b1 = Inr b'" by auto
      from Cons.IH[OF this] have
        1: "otherFields b' = otherFields ?b1"
        and 2: "Suc placed \<le> mines config \<longrightarrow> mineCount b' + Suc placed = mineCount ?b1 + mines config"
        and 3: "\<forall>r c. isMineAt b' r c \<longrightarrow> isMineAt ?b1 r c \<or> r \<noteq> fr \<or> c \<noteq> fc"
        by blast+
      have a: "otherFields b' = otherFields b"
        using 1 otherFields_setCell[OF x] by simp
      have b: "mineCount b' + placed = mineCount b + mines config"
        using 2 True mineCount_setCell[OF x] acc by simp
      have c: "\<forall>r c. isMineAt b' r c \<longrightarrow> isMineAt b r c \<or> r \<noteq> fr \<or> c \<noteq> fc"
        using 3 acc by (auto simp: isMineAt_setCell[OF x] split: if_splits)
      from a b c show ?thesis by blast
    qed
  qed
qed

text \<open>Enough draws end the loop.\<close>

definition accepted :: "int \<Rightarrow> int \<Rightarrow> board \<Rightarrow> nat \<times> nat \<Rightarrow> bool" where
  "accepted fr fc b d \<longleftrightarrow>
     \<not> isMineAt b (int (fst d)) (int (snd d)) \<and> (int (fst d) \<noteq> fr \<or> int (snd d) \<noteq> fc)"

lemma placeMines_enough:
  assumes "\<forall>d \<in> set ds. \<exists>x. cellAt b (int (fst d)) (int (snd d)) = Some x"
    and "mines config - placed \<le> card {d \<in> set ds. accepted fr fc b d}"
  shows "\<exists>b'. placeMines config fr fc ds placed b = Inr b'"
  using assms
proof (induction ds arbitrary: placed b)
  case Nil
  then show ?case by simp
next
  case (Cons d ds)
  show ?case
  proof (cases "placed < mines config")
    case False
    then show ?thesis by simp
  next
    case True
    from Cons.prems(1) obtain x where x: "cellAt b (int (fst d)) (int (snd d)) = Some x"
      by auto
    have mx: "isMineAt b (int (fst d)) (int (snd d)) = isMine x"
      using x by (simp add: isMineAt_def)
    show ?thesis
    proof (cases "\<not> isMine x \<and> (int (fst d) \<noteq> fr \<or> int (snd d) \<noteq> fc)")
      case False
      then have "\<not> accepted fr fc b d" using mx by (auto simp: accepted_def)
      then have "{e \<in> set (d # ds). accepted fr fc b e} = {e \<in> set ds. accepted fr fc b e}"
        by auto
      with Cons.prems have "\<exists>b'. placeMines config fr fc ds placed b = Inr b'"
        by (intro Cons.IH) auto
      with False True x show ?thesis by auto
    next
      case acc: True
      let ?b1 = "setCell b (int (fst d)) (int (snd d)) (x\<lparr>isMine := True\<rparr>)"
      have in1: "\<forall>e \<in> set ds. \<exists>y. cellAt ?b1 (int (fst e)) (int (snd e)) = Some y"
        using Cons.prems(1) by (auto simp: cellAt_setCell[OF x])
      have sub: "{e \<in> set (d # ds). accepted fr fc b e} - {d} \<subseteq> {e \<in> set ds. accepted fr fc ?b1 e}"
        by (auto simp: accepted_def isMineAt_setCell[OF x] prod_eq_iff)
      have "card {e \<in> set (d # ds). accepted fr fc b e} - 1
              \<le> card ({e \<in> set (d # ds). accepted fr fc b e} - {d})"
        by (simp add: card_Diff_singleton_if)
      also have "\<dots> \<le> card {e \<in> set ds. accepted fr fc ?b1 e}"
        by (rule card_mono[OF _ sub]) simp
      finally have "mines config - Suc placed \<le> card {e \<in> set ds. accepted fr fc ?b1 e}"
        using Cons.prems(2) by simp
      from Cons.IH[OF in1 this] acc True x show ?thesis by auto
    qed
  qed
qed

definition codeCount :: "board \<Rightarrow> int \<Rightarrow> int \<Rightarrow> nat" where
  "codeCount b r c = length (filter (\<lambda>d. isMineAt b (r + fst d) (c + snd d)) offsets)"

lemma codeCount_brute:
  assumes "\<not> isMineAt b r c"
  shows "codeCount b r c = bruteCount b r c"
proof -
  have o: "offsets = take 4 around @ [(0, 0)] @ drop 4 around"
    by (simp add: offsets_def around_def)
  have "filter (\<lambda>d. isMineAt b (r + fst d) (c + snd d)) [(0, 0)] = []"
    using assms by simp
  then have "codeCount b r c
      = length (filter (\<lambda>d. isMineAt b (r + fst d) (c + snd d)) (take 4 around @ drop 4 around))"
    unfolding codeCount_def o by (simp only: filter_append append_Nil)
  then show ?thesis by (simp only: append_take_drop_id bruteCount_def)
qed

lemma countStep_shaped:
  assumes "shaped config b"
  shows "countStep config b r c d n = Inr (if isMineAt b (r + fst d) (c + snd d) then Suc n else n)"
proof (cases "r + fst d \<ge> 0 \<and> r + fst d < int (rows config) \<and> c + snd d \<ge> 0 \<and> c + snd d < int (cols config)")
  case True
  with shaped_cellAt[OF assms, of "r + fst d" "c + snd d"] obtain y
    where "cellAt b (r + fst d) (c + snd d) = Some y" by auto
  with True show ?thesis by (simp add: countStep_def Let_def isMineAt_def)
next
  case False
  with shaped_cellAt[OF assms, of "r + fst d" "c + snd d"]
  have "cellAt b (r + fst d) (c + snd d) = None" by auto
  with False show ?thesis by (auto simp: countStep_def Let_def isMineAt_def)
qed

lemma count_loop:
  assumes "shaped config b"
  shows "forEachE (countStep config b r c) ds n
           = Inr (n + length (filter (\<lambda>d. isMineAt b (r + fst d) (c + snd d)) ds))"
  by (induction ds arbitrary: n) (simp_all add: countStep_shaped[OF assms])

lemma fillCell_shaped:
  assumes "shaped config b" and "cellAt b (int (fst p)) (int (snd p)) = Some x"
  shows "fillCell config p b
           = Inr (if isMine x then b
                  else setCell b (int (fst p)) (int (snd p))
                         (x\<lparr>neighborMines := codeCount b (int (fst p)) (int (snd p))\<rparr>))"
  using assms(2) by (simp add: fillCell_def count_loop[OF assms(1)] codeCount_def)

definition noCounts :: "board \<Rightarrow> (bool \<times> bool \<times> bool) list list" where
  "noCounts b = map (map (\<lambda>x. (isMine x, isRevealed x, isFlagged x))) b"

lemma cellAt_map: "cellAt (map (map f) b) r c = map_option f (cellAt b r c)"
  by (auto simp: cellAt_def Let_def)

lemma noCounts_isMineAt: "noCounts b' = noCounts b \<Longrightarrow> isMineAt b' r c = isMineAt b r c"
proof -
  assume "noCounts b' = noCounts b"
  then have "cellAt (noCounts b') r c = cellAt (noCounts b) r c" by simp
  then have "map_option (\<lambda>x. (isMine x, isRevealed x, isFlagged x)) (cellAt b' r c)
           = map_option (\<lambda>x. (isMine x, isRevealed x, isFlagged x)) (cellAt b r c)"
    by (simp add: noCounts_def cellAt_map)
  then show ?thesis by (auto simp: isMineAt_def split: option.splits)
qed

lemma noCounts_codeCount:
  assumes "noCounts b' = noCounts b"
  shows "codeCount b' r c = codeCount b r c"
  unfolding codeCount_def noCounts_isMineAt[OF assms] ..

lemma noCounts_mineCount: "noCounts b' = noCounts b \<Longrightarrow> mineCount b' = mineCount b"
proof -
  assume a: "noCounts b' = noCounts b"
  have m: "mineCount b = length (filter fst (concat (noCounts b)))" for b
    by (simp add: mineCount_def noCounts_def map_concat[symmetric] filter_map comp_def)
  show ?thesis unfolding m a ..
qed

lemma noCounts_setCell:
  assumes "cellAt b r c = Some x"
  shows "noCounts (setCell b r c (x\<lparr>neighborMines := v\<rparr>)) = noCounts b"
proof -
  from assms have r: "nat r < length b" and c: "nat c < length (b ! nat r)"
    and x: "x = b ! nat r ! nat c" using cellAt_SomeD by blast+
  have "map (\<lambda>x. (isMine x, isRevealed x, isFlagged x)) ((b ! nat r)[nat c := x\<lparr>neighborMines := v\<rparr>])
      = map (\<lambda>x. (isMine x, isRevealed x, isFlagged x)) (b ! nat r)"
    using c x by (simp add: map_update list_update_same_conv)
  then show ?thesis using r
    by (simp add: noCounts_def setCell_def map_update list_update_same_conv)
qed

lemma shaped_setCell: "shaped config b \<Longrightarrow> shaped config (setCell b r c y)"
  by (simp add: shaped_def map_length_setCell)

lemma fill_loop:
  assumes "shaped config b" and "distinct ps"
    and "\<forall>p \<in> set ps. fst p < rows config \<and> snd p < cols config"
  shows "\<exists>b'. forEachE (fillCell config) ps b = Inr b' \<and> shaped config b' \<and> noCounts b' = noCounts b
          \<and> (\<forall>r c x. cellAt b r c = Some x \<longrightarrow>
                cellAt b' r c = Some (if (nat r, nat c) \<in> set ps \<and> \<not> isMine x
                                     then x\<lparr>neighborMines := codeCount b r c\<rparr> else x))"
  using assms
proof (induction ps arbitrary: b)
  case Nil
  then show ?case by simp
next
  case (Cons p ps)
  from Cons.prems(3) have pr: "fst p < rows config" "snd p < cols config" by auto
  with shaped_cellAt[OF Cons.prems(1), of "int (fst p)" "int (snd p)"] obtain x
    where x: "cellAt b (int (fst p)) (int (snd p)) = Some x" by auto
  let ?y = "x\<lparr>neighborMines := codeCount b (int (fst p)) (int (snd p))\<rparr>"
  let ?b1 = "if isMine x then b else setCell b (int (fst p)) (int (snd p)) ?y"
  have f: "fillCell config p b = Inr ?b1"
    by (rule fillCell_shaped[OF Cons.prems(1) x])
  have s1: "shaped config ?b1" using Cons.prems(1) by (simp add: shaped_setCell)
  have n1: "noCounts ?b1 = noCounts b" by (simp add: noCounts_setCell[OF x])
  have c1: "cellAt ?b1 r c = (if r = int (fst p) \<and> c = int (snd p) \<and> \<not> isMine x then Some ?y else cellAt b r c)" for r c
    by (simp add: cellAt_setCell[OF x])
  from Cons.prems have "distinct ps" "\<forall>p \<in> set ps. fst p < rows config \<and> snd p < cols config"
    by auto
  from Cons.IH[OF s1 this] obtain b' where
    run: "forEachE (fillCell config) ps ?b1 = Inr b'" and s': "shaped config b'"
    and n': "noCounts b' = noCounts ?b1"
    and c': "\<And>r c x1. cellAt ?b1 r c = Some x1 \<Longrightarrow>
                cellAt b' r c = Some (if (nat r, nat c) \<in> set ps \<and> \<not> isMine x1
                                     then x1\<lparr>neighborMines := codeCount ?b1 r c\<rparr> else x1)"
    by blast
  have cc: "codeCount ?b1 r c = codeCount b r c" for r c
    using n1 by (rule noCounts_codeCount)
  have fin: "cellAt b' r c = Some (if (nat r, nat c) \<in> set (p # ps) \<and> \<not> isMine z
                                     then z\<lparr>neighborMines := codeCount b r c\<rparr> else z)"
    if z: "cellAt b r c = Some z" for r c z
  proof (cases "r = int (fst p) \<and> c = int (snd p)")
    case True
    with z x have zx: "z = x" by simp
    from True have pin: "(nat r, nat c) = p" by simp
    with Cons.prems(2) have notin: "(nat r, nat c) \<notin> set ps" by auto
    show ?thesis
    proof (cases "isMine x")
      case True
      with c1[of r c] z have "cellAt ?b1 r c = Some z" by simp
      from c'[OF this] notin True zx show ?thesis by simp
    next
      case False
      with c1[of r c] \<open>r = int (fst p) \<and> c = int (snd p)\<close> have "cellAt ?b1 r c = Some ?y" by simp
      from c'[OF this] notin False zx pin \<open>r = int (fst p) \<and> c = int (snd p)\<close> show ?thesis 
        by simp
    qed
  next
    case False
    from z have "0 \<le> r" "0 \<le> c" using cellAt_SomeD by blast+
    with False have ne: "(nat r, nat c) \<noteq> p" by (auto simp: prod_eq_iff)
    from False c1[of r c] z have "cellAt ?b1 r c = Some z" by auto
    from c'[OF this] ne cc show ?thesis by simp
  qed
  have step: "forEachE (fillCell config) (p # ps) b = Inr b'"
    by (simp only: forEachE.simps f sum.case run)
  have nn: "noCounts b' = noCounts b"
    using n' n1 by (rule trans)
  from step s' nn fin show ?case by blast
qed

lemma positions_props:
  "distinct (positions config)"
  "p \<in> set (positions config) \<longleftrightarrow> fst p < rows config \<and> snd p < cols config"
  by (cases p; auto simp: positions_def distinct_product)+

lemma computeNeighbors_result:
  assumes "shaped config b1"
  shows "\<exists>b. computeNeighbors config b1 = Inr b \<and> shaped config b \<and> noCounts b = noCounts b1
          \<and> (\<forall>r c x. cellAt b1 r c = Some x \<longrightarrow>
                cellAt b r c = Some (if isMine x then x
                                    else x\<lparr>neighborMines := codeCount b1 r c\<rparr>))"
proof -
  have rng: "\<forall>p \<in> set (positions config). fst p < rows config \<and> snd p < cols config"
    by (simp add: positions_props)
  from fill_loop[OF assms positions_props(1) rng] obtain b where
    run: "forEachE (fillCell config) (positions config) b1 = Inr b" and s: "shaped config b"
    and n: "noCounts b = noCounts b1"
    and c: "\<And>r c x. cellAt b1 r c = Some x \<Longrightarrow>
                cellAt b r c = Some (if (nat r, nat c) \<in> set (positions config) \<and> \<not> isMine x
                                     then x\<lparr>neighborMines := codeCount b1 r c\<rparr> else x)"
    by blast
  have "cellAt b r c = Some (if isMine x then x else x\<lparr>neighborMines := codeCount b1 r c\<rparr>)"
    if x: "cellAt b1 r c = Some x" for r c x
  proof -
    from shaped_cellAt[OF assms, of r c] x
    have "0 \<le> r" "r < int (rows config)" "0 \<le> c" "c < int (cols config)" by auto
    then have "nat r < rows config" "nat c < cols config" by linarith+
    then have "(nat r, nat c) \<in> set (positions config)"
      by (simp add: positions_props)
    with c[OF x] show ?thesis by simp
  qed
  with run s n show ?thesis unfolding computeNeighbors_def by blast
qed

lemma otherFields_lengths: "otherFields b' = otherFields b \<Longrightarrow> map length b' = map length b"
proof -
  assume "otherFields b' = otherFields b"
  then have "map length (otherFields b') = map length (otherFields b)" by simp
  then show ?thesis by (simp add: otherFields_def comp_def)
qed

lemma otherFields_neighborMines:
  assumes "otherFields b' = otherFields b" and "cellAt b' r c = Some x"
  shows "\<exists>y. cellAt b r c = Some y \<and> neighborMines y = neighborMines x"
proof -
  from assms(1) have "cellAt (otherFields b') r c = cellAt (otherFields b) r c" by simp
  with assms(2) show ?thesis
    by (cases "cellAt b r c") (auto simp: otherFields_def cellAt_map)
qed

lemma cellAt_mem: "cellAt (b :: board) r c = Some x \<Longrightarrow> x \<in> set (concat b)"
proof -
  assume "cellAt b r c = Some x"
  then have "nat r < length b" "nat c < length (b ! nat r)" "x = b ! nat r ! nat c"
    using cellAt_SomeD by blast+
  then show ?thesis by (metis in_set_conv_nth set_concat UN_I nth_mem)
qed

lemma freshBoard_props:
  "shaped config (freshBoard config)"
  "mineCount (freshBoard config) = 0"
  "x \<in> set (concat (freshBoard config)) \<Longrightarrow> x = blankCell"
  by (auto simp: shaped_def freshBoard_def mineCount_def blankCell_def)

text \<open>
  C1 (as the code has it). Generation starts from the blank board of \<open>initBoard\<close>.
  When the draws lie on the board and hold at least \<open>mines\<close> different cells other
  than the excluded one, generation returns a board. Every board it returns has the
  configuration's shape and exactly \<open>mines\<close> mines, none of them on the excluded cell;
  every cell that is not a mine carries the reference count of the mines around it, and
  every mine keeps \<open>neighborMines = 0\<close>, the loop skipping mines.
\<close>

theorem generate_correct:
  "((\<forall>d \<in> set draws. fst d < rows config \<and> snd d < cols config)
      \<and> mines config \<le> card {d \<in> set draws. int (fst d) \<noteq> firstRow \<or> int (snd d) \<noteq> firstCol}
     \<longrightarrow> (\<exists>b. generate config firstRow firstCol draws (freshBoard config) = Inr b))
   \<and> (generate config firstRow firstCol draws (freshBoard config) = Inr b \<longrightarrow>
        shaped config b \<and> mineCount b = mines config \<and> \<not> isMineAt b firstRow firstCol
        \<and> (\<forall>r c x. cellAt b r c = Some x \<longrightarrow>
              neighborMines x = (if isMine x then 0 else bruteCount b r c)))"
proof -
  let ?f = "freshBoard config"
  have part1: "\<exists>b. generate config firstRow firstCol draws (freshBoard config) = Inr b"
    if a: "(\<forall>d \<in> set draws. fst d < rows config \<and> snd d < cols config)
      \<and> mines config \<le> card {d \<in> set draws. int (fst d) \<noteq> firstRow \<or> int (snd d) \<noteq> firstCol}"
  proof -
  have nm: "\<not> isMineAt ?f r c" for r c
  proof (cases "cellAt ?f r c")
    case None
    then show ?thesis by (simp add: isMineAt_def)
  next
    case (Some y)
    from cellAt_mem[OF this] have "y = blankCell" by (rule freshBoard_props(3))
    with Some show ?thesis by (simp add: isMineAt_def blankCell_def)
  qed
  have 1: "\<forall>d \<in> set draws. \<exists>x. cellAt ?f (int (fst d)) (int (snd d)) = Some x"
    using a shaped_cellAt[OF freshBoard_props(1), of config] by auto
  have "{d \<in> set draws. accepted firstRow firstCol ?f d}
        = {d \<in> set draws. int (fst d) \<noteq> firstRow \<or> int (snd d) \<noteq> firstCol}"
    using nm by (auto simp: accepted_def)
  with a have 2: "mines config - 0 \<le> card {d \<in> set draws. accepted firstRow firstCol ?f d}"
    by simp
  from placeMines_enough[OF 1 2] obtain b1
    where b1: "placeMines config firstRow firstCol draws 0 ?f = Inr b1" by blast
  from placeMines_result[OF b1] have "map length b1 = map length ?f"
    using otherFields_lengths by blast
  then have "shaped config b1" using freshBoard_props(1)[of config] by (simp add: shaped_def)
  from computeNeighbors_result[OF this] b1
  show "\<exists>b. generate config firstRow firstCol draws (freshBoard config) = Inr b"
    by (auto simp: generate_def)
  qed
  have part2: "shaped config b \<and> mineCount b = mines config \<and> \<not> isMineAt b firstRow firstCol
        \<and> (\<forall>r c x. cellAt b r c = Some x \<longrightarrow>
              neighborMines x = (if isMine x then 0 else bruteCount b r c))"
    if g: "generate config firstRow firstCol draws (freshBoard config) = Inr b"
  proof -
  from g obtain b1 where b1: "placeMines config firstRow firstCol draws 0 ?f = Inr b1"
    and b: "computeNeighbors config b1 = Inr b"
    by (auto simp: generate_def split: sum.splits)
  have nm: "\<not> isMineAt ?f r c" for r c
  proof (cases "cellAt ?f r c")
    case None
    then show ?thesis by (simp add: isMineAt_def)
  next
    case (Some y)
    from cellAt_mem[OF this] have "y = blankCell" by (rule freshBoard_props(3))
    with Some show ?thesis by (simp add: isMineAt_def blankCell_def)
  qed
  from placeMines_result[OF b1] have
    o: "otherFields b1 = otherFields ?f" and m: "mineCount b1 = mines config"
    and e: "\<not> isMineAt b1 firstRow firstCol"
    using nm by (auto simp: freshBoard_props(2))
  from o have "map length b1 = map length ?f" by (rule otherFields_lengths)
  then have s1: "shaped config b1" using freshBoard_props(1)[of config] by (simp add: shaped_def)
  from computeNeighbors_result[OF s1] b have s: "shaped config b" and n: "noCounts b = noCounts b1"
    and c: "\<And>r c x. cellAt b1 r c = Some x \<Longrightarrow>
                cellAt b r c = Some (if isMine x then x else x\<lparr>neighborMines := codeCount b1 r c\<rparr>)"
    by auto
  have z: "neighborMines x1 = 0" if "cellAt b1 r c = Some x1" for r c x1
  proof -
    from otherFields_neighborMines[OF o that] obtain y
      where y: "cellAt ?f r c = Some y" "neighborMines y = neighborMines x1" by blast
    from cellAt_mem[OF y(1)] freshBoard_props(3) have "y = blankCell" by blast
    with y(2) show ?thesis by (simp add: blankCell_def)
  qed
  have cnt: "neighborMines x = (if isMine x then 0 else bruteCount b r c)"
    if x: "cellAt b r c = Some x" for r c x
  proof -
    from shaped_cellAt[OF s, of r c] x shaped_cellAt[OF s1, of r c] obtain x1
      where x1: "cellAt b1 r c = Some x1" by auto
    from c[OF x1] x have xe: "x = (if isMine x1 then x1 else x1\<lparr>neighborMines := codeCount b1 r c\<rparr>)"
      by simp
    show ?thesis
    proof (cases "isMine x1")
      case True
      with xe z[OF x1] show ?thesis by simp
    next
      case False
      with xe have nx: "\<not> isMine x" and v: "neighborMines x = codeCount b1 r c" by auto
      from nx x have "\<not> isMineAt b r c" by (simp add: isMineAt_def)
      from codeCount_brute[OF this] noCounts_codeCount[OF n, of r c] v nx show ?thesis by simp
    qed
  qed
  from s noCounts_mineCount[OF n] m e noCounts_isMineAt[OF n, of firstRow firstCol] cnt
  show ?thesis
    by simp
  qed
  from part1 part2 show ?thesis by blast
qed

definition demoDraws :: "(nat \<times> nat) list" where
  "demoDraws =
     [(0, 0), (0, 1), (0, 0), (8, 8), (0, 2), (0, 3), (0, 4), (0, 5), (0, 6), (0, 7), (0, 8), (1, 0)]"

theorem generate_correct_witness:
  "\<exists>b. generate (CONFIGS Beginner) 8 8 demoDraws (freshBoard (CONFIGS Beginner)) = Inr b
      \<and> shaped (CONFIGS Beginner) b \<and> mineCount b = 10 \<and> \<not> isMineAt b 8 8
      \<and> (\<forall>r c x. cellAt b r c = Some x \<longrightarrow>
            neighborMines x = (if isMine x then 0 else bruteCount b r c))"
proof -
  have 1: "\<forall>d \<in> set demoDraws. fst d < rows (CONFIGS Beginner) \<and> snd d < cols (CONFIGS Beginner)"
    by (simp add: demoDraws_def)
  have "mines (CONFIGS Beginner)
      \<le> length (remdups (filter (\<lambda>d. int (fst d) \<noteq> 8 \<or> int (snd d) \<noteq> 8) demoDraws))"
    by code_simp
  then have 2: "mines (CONFIGS Beginner)
          \<le> card {d \<in> set demoDraws. int (fst d) \<noteq> 8 \<or> int (snd d) \<noteq> 8}"
    by (simp only: card_set[symmetric] set_filter)
  from 1 2 generate_correct[of demoDraws "CONFIGS Beginner" 8 8] obtain b
    where b: "generate (CONFIGS Beginner) 8 8 demoDraws (freshBoard (CONFIGS Beginner)) = Inr b"
    by blast
  have m: "mines (CONFIGS Beginner) = 10" by simp
  from b generate_correct[of demoDraws "CONFIGS Beginner" 8 8 b] show ?thesis
    unfolding m by blast
qed

text \<open>
  C1 as stated fails at the mines: with the draws \<open>demoDraws\<close> on the beginner board the
  cell \<open>(0, 0)\<close> is a mine with two mines around it, and its \<open>neighborMines\<close> is \<open>0\<close>.
\<close>

theorem generate_mine_neighbors_counterexample:
  "(case generate (CONFIGS Beginner) 8 8 demoDraws (freshBoard (CONFIGS Beginner)) of
      Inl err \<Rightarrow> False
    | Inr b \<Rightarrow> (case cellAt b 0 0 of
                  None \<Rightarrow> False
                | Some x \<Rightarrow> isMine x \<and> neighborMines x = 0 \<and> bruteCount b 0 0 = 2))"
  by code_simp

section \<open>Flood fill\<close>

text \<open>
  The cells a flood from \<open>s\<close> can reach on a board \<open>b\<close>: \<open>s\<close> itself when it is on
  the board, unrevealed and unflagged, and every such cell next to a reached cell whose
  \<open>neighborMines\<close> is \<open>0\<close>. On a board with no flag and nothing revealed this is the
  connected zero region of \<open>s\<close> with its ring of bordering cells.
\<close>

definition inBoard :: "board \<Rightarrow> int \<times> int \<Rightarrow> bool" where
  "inBoard b p = (cellAt b (fst p) (snd p) \<noteq> None)"

definition revealedAt :: "board \<Rightarrow> int \<times> int \<Rightarrow> bool" where
  "revealedAt b p = (case cellAt b (fst p) (snd p) of None \<Rightarrow> False | Some x \<Rightarrow> isRevealed x)"

definition flaggedAt :: "board \<Rightarrow> int \<times> int \<Rightarrow> bool" where
  "flaggedAt b p = (case cellAt b (fst p) (snd p) of None \<Rightarrow> False | Some x \<Rightarrow> isFlagged x)"

definition zeroAt :: "board \<Rightarrow> int \<times> int \<Rightarrow> bool" where
  "zeroAt b p = (case cellAt b (fst p) (snd p) of None \<Rightarrow> False | Some x \<Rightarrow> neighborMines x = 0)"

definition openable :: "board \<Rightarrow> int \<times> int \<Rightarrow> bool" where
  "openable b p = (inBoard b p \<and> \<not> revealedAt b p \<and> \<not> flaggedAt b p)"

definition adjacent :: "int \<times> int \<Rightarrow> int \<times> int \<Rightarrow> bool" where
  "adjacent p q = (\<bar>fst q - fst p\<bar> \<le> 1 \<and> \<bar>snd q - snd p\<bar> \<le> 1)"

inductive_set region :: "board \<Rightarrow> int \<times> int \<Rightarrow> (int \<times> int) set" for b :: board and s :: "int \<times> int" where
  start: "openable b s \<Longrightarrow> s \<in> region b s"
| step: "p \<in> region b s \<Longrightarrow> zeroAt b p \<Longrightarrow> adjacent p q \<Longrightarrow> openable b q \<Longrightarrow> q \<in> region b s"

lemma region_openable: "p \<in> region b s \<Longrightarrow> openable b p"
  by (induction rule: region.induct) auto

lemma region_start_openable: "p \<in> region b s \<Longrightarrow> openable b s"
  by (induction rule: region.induct) auto

lemma region_trans: "p \<in> region b q \<Longrightarrow> q \<in> region b s \<Longrightarrow> p \<in> region b s"
  by (induction rule: region.induct) (auto intro: region.step)

lemma region_antimono:
  assumes "p \<in> region b' s"
    and "\<And>q. openable b' q \<Longrightarrow> openable b q" and "\<And>q. zeroAt b' q \<Longrightarrow> zeroAt b q"
  shows "p \<in> region b s"
  using assms(1)
  by (induction rule: region.induct) (auto intro: region.intros assms(2,3))

text \<open>
  What a run of reveals started at the cells \<open>S\<close> has done to a board: nothing but
  \<open>isRevealed\<close> changed, nothing was hidden again, every cell revealed by the run is
  reached from a start, every revealed zero cell has its unflagged neighbours revealed,
  and every start on the board and unflagged is revealed.
\<close>

definition flooded :: "board \<Rightarrow> board \<Rightarrow> (int \<times> int) set \<Rightarrow> bool" where
  "flooded b b' S \<longleftrightarrow>
     fixedPart b' = fixedPart b
     \<and> (\<forall>p. revealedAt b p \<longrightarrow> revealedAt b' p)
     \<and> (\<forall>p. revealedAt b' p \<longrightarrow> revealedAt b p \<or> (\<exists>s \<in> S. p \<in> region b s))
     \<and> (\<forall>p q. revealedAt b' p \<and> \<not> revealedAt b p \<and> zeroAt b p \<and> adjacent p q
               \<and> inBoard b q \<and> \<not> flaggedAt b q \<longrightarrow> revealedAt b' q)
     \<and> (\<forall>s \<in> S. inBoard b s \<and> \<not> flaggedAt b s \<longrightarrow> revealedAt b' s)"

lemma cellAt_fixedPart:
  "cellAt (fixedPart b) r c = map_option (\<lambda>x. (isMine x, isFlagged x, neighborMines x)) (cellAt b r c)"
  by (auto simp: fixedPart_def cellAt_def Let_def)

lemma fixedPart_cellAt:
  assumes "fixedPart b' = fixedPart b"
  shows "map_option (\<lambda>x. (isMine x, isFlagged x, neighborMines x)) (cellAt b' r c)
       = map_option (\<lambda>x. (isMine x, isFlagged x, neighborMines x)) (cellAt b r c)"
  using assms cellAt_fixedPart by metis

lemma fixedPart_same:
  assumes "fixedPart b' = fixedPart b"
  shows "inBoard b' p = inBoard b p" "flaggedAt b' p = flaggedAt b p" "zeroAt b' p = zeroAt b p"
  using fixedPart_cellAt[OF assms, of "fst p" "snd p"]
  by (cases "cellAt b' (fst p) (snd p)"; cases "cellAt b (fst p) (snd p)";
      simp add: inBoard_def flaggedAt_def zeroAt_def)+

lemma floodedI:
  assumes "fixedPart b' = fixedPart b"
    and "\<And>p. revealedAt b p \<Longrightarrow> revealedAt b' p"
    and "\<And>p. revealedAt b' p \<Longrightarrow> revealedAt b p \<or> (\<exists>s \<in> S. p \<in> region b s)"
    and "\<And>p q. revealedAt b' p \<Longrightarrow> \<not> revealedAt b p \<Longrightarrow> zeroAt b p \<Longrightarrow> adjacent p q \<Longrightarrow>
               inBoard b q \<Longrightarrow> \<not> flaggedAt b q \<Longrightarrow> revealedAt b' q"
    and "\<And>s. s \<in> S \<Longrightarrow> inBoard b s \<Longrightarrow> \<not> flaggedAt b s \<Longrightarrow> revealedAt b' s"
  shows "flooded b b' S"
  unfolding flooded_def using assms by blast

lemma flooded_fixed: "flooded b b' S \<Longrightarrow> fixedPart b' = fixedPart b"
  unfolding flooded_def by blast

lemma flooded_mono: "flooded b b' S \<Longrightarrow> revealedAt b p \<Longrightarrow> revealedAt b' p"
  unfolding flooded_def by blast

lemma flooded_sound:
  "flooded b b' S \<Longrightarrow> revealedAt b' p \<Longrightarrow> revealedAt b p \<or> (\<exists>s \<in> S. p \<in> region b s)"
  unfolding flooded_def by blast

lemma flooded_closed:
  "flooded b b' S \<Longrightarrow> revealedAt b' p \<Longrightarrow> \<not> revealedAt b p \<Longrightarrow> zeroAt b p \<Longrightarrow> adjacent p q \<Longrightarrow>
     inBoard b q \<Longrightarrow> \<not> flaggedAt b q \<Longrightarrow> revealedAt b' q"
  unfolding flooded_def by blast

lemma flooded_starts:
  "flooded b b' S \<Longrightarrow> s \<in> S \<Longrightarrow> inBoard b s \<Longrightarrow> \<not> flaggedAt b s \<Longrightarrow> revealedAt b' s"
  unfolding flooded_def by blast

lemma flooded_openable:
  assumes "flooded b b' S" "openable b' q"
  shows "openable b q"
  using assms(2) fixedPart_same[OF flooded_fixed[OF assms(1)], of q] flooded_mono[OF assms(1), of q]
  unfolding openable_def by blast

lemma flooded_region:
  assumes "flooded b b' S" "p \<in> region b' s"
  shows "p \<in> region b s"
proof (rule region_antimono[OF assms(2)])
  show "openable b q" if "openable b' q" for q using flooded_openable[OF assms(1) that] .
  show "zeroAt b q" if "zeroAt b' q" for q
    using that fixedPart_same(3)[OF flooded_fixed[OF assms(1)], of q] by simp
qed

lemma flooded_refl: "flooded b b {}"
  by (rule floodedI) simp_all

lemma flooded_noop: "\<not> openable b s \<Longrightarrow> flooded b b {s}"
  by (rule floodedI) (simp_all add: openable_def)

lemma flooded_trans:
  assumes 1: "flooded b b1 S1" and 2: "flooded b1 b2 S2"
  shows "flooded b b2 (S1 \<union> S2)"
proof (rule floodedI)
  have f: "fixedPart b1 = fixedPart b" "fixedPart b2 = fixedPart b1"
    using 1 2 by (simp_all add: flooded_fixed)
  then show "fixedPart b2 = fixedPart b" by simp
  have same: "inBoard b1 p = inBoard b p" "flaggedAt b1 p = flaggedAt b p" "zeroAt b1 p = zeroAt b p" for p
    using fixedPart_same[OF f(1)] by auto
  show "revealedAt b2 p" if "revealedAt b p" for p
    using flooded_mono[OF 2 flooded_mono[OF 1 that]] .
  show "revealedAt b p \<or> (\<exists>s \<in> S1 \<union> S2. p \<in> region b s)" if r: "revealedAt b2 p" for p
  proof -
    from flooded_sound[OF 2 r] show ?thesis
    proof
      assume "revealedAt b1 p"
      from flooded_sound[OF 1 this] show ?thesis by blast
    next
      assume "\<exists>s \<in> S2. p \<in> region b1 s"
      then show ?thesis using flooded_region[OF 1] by blast
    qed
  qed
  show "revealedAt b2 q"
    if h: "revealedAt b2 p" "\<not> revealedAt b p" "zeroAt b p" "adjacent p q" "inBoard b q" "\<not> flaggedAt b q"
    for p q
  proof (cases "revealedAt b1 p")
    case True
    from flooded_closed[OF 1 True h(2-6)] show ?thesis by (rule flooded_mono[OF 2])
  next
    case False
    from h same have "zeroAt b1 p" "inBoard b1 q" "\<not> flaggedAt b1 q" by simp_all
    from flooded_closed[OF 2 h(1) False this(1) h(4) this(2,3)] show ?thesis .
  qed
  show "revealedAt b2 s" if h: "s \<in> S1 \<union> S2" "inBoard b s" "\<not> flaggedAt b s" for s
  proof (cases "s \<in> S1")
    case True
    from flooded_starts[OF 1 True h(2,3)] show ?thesis by (rule flooded_mono[OF 2])
  next
    case False
    with h have "s \<in> S2" by simp
    moreover from h same have "inBoard b1 s" "\<not> flaggedAt b1 s" by simp_all
    ultimately show ?thesis by (rule flooded_starts[OF 2])
  qed
qed

text \<open>
  No mine lies around (or on) a cell that is not a mine and whose \<open>neighborMines\<close> is
  \<open>0\<close>. Boards with correct counts are of this kind (\<open>counted_zerosClear\<close> below).
\<close>

definition zerosClear :: "board \<Rightarrow> bool" where
  "zerosClear b \<longleftrightarrow>
     (\<forall>r c x d. cellAt b r c = Some x \<and> \<not> isMine x \<and> neighborMines x = 0 \<and> d \<in> set offsets
        \<longrightarrow> \<not> isMineAt b (r + fst d) (c + snd d))"

lemma fixedPart_isMineAt:
  assumes "fixedPart b' = fixedPart b"
  shows "isMineAt b' r c = isMineAt b r c"
  using fixedPart_cellAt[OF assms, of r c]
  by (cases "cellAt b' r c"; cases "cellAt b r c"; simp add: isMineAt_def)

lemma fixedPart_zerosClear:
  assumes "fixedPart b' = fixedPart b" and "zerosClear b"
  shows "zerosClear b'"
  unfolding zerosClear_def
proof (intro allI impI)
  fix r c x' d
  assume h: "cellAt b' r c = Some x' \<and> \<not> isMine x' \<and> neighborMines x' = 0 \<and> d \<in> set offsets"
  with fixedPart_cellAt[OF assms(1), of r c] obtain x
    where "cellAt b r c = Some x" "\<not> isMine x" "neighborMines x = 0"
    by (cases "cellAt b r c") auto
  with assms(2) h have "\<not> isMineAt b (r + fst d) (c + snd d)"
    unfolding zerosClear_def by blast
  then show "\<not> isMineAt b' (r + fst d) (c + snd d)"
    by (simp add: fixedPart_isMineAt[OF assms(1)])
qed

lemma fixedPart_grid: "fixedPart b' = fixedPart b \<Longrightarrow> grid b' = grid b"
  using grid_lengths fixedPart_lengths by blast

lemma guard_cellAt:
  assumes "grid b"
  shows "(r < 0 \<or> r \<ge> int (length b) \<or> c < 0 \<or> c \<ge> int (length (b ! 0))) = (cellAt b r c = None)"
proof (cases "r < 0 \<or> r \<ge> int (length b)")
  case True
  then show ?thesis by (auto simp: cellAt_def)
next
  case False
  then have "nat r < length b" by auto
  with assms have "length (b ! nat r) = length (b ! 0)"
    by (simp add: grid_def list_all_length)
  with False show ?thesis by (auto simp: cellAt_def Let_def)
qed

lemma revealedAt_mark:
  assumes "cellAt b r c = Some x"
  shows "revealedAt (setCell b r c (x\<lparr>isRevealed := True\<rparr>)) p = (p = (r, c) \<or> revealedAt b p)"
  by (cases p) (auto simp: revealedAt_def cellAt_setCell[OF assms])

lemma adjacent_offsets: "{q. adjacent (r, c) q} = (\<lambda>d. (r + fst d, c + snd d)) ` set offsets"
proof -
  have u: "(\<bar>k\<bar> \<le> 1) = (k = - 1 \<or> k = 0 \<or> k = 1)" for k :: int
    by arith
  have "(\<bar>dr\<bar> \<le> 1 \<and> \<bar>dc\<bar> \<le> 1) = ((dr, dc) \<in> set offsets)" for dr dc :: int
    unfolding u offsets_def by (simp only: set_simps insert_iff prod.inject empty_iff) blast
  then have a: "adjacent (r, c) q = ((fst q - r, snd q - c) \<in> set offsets)" for q
    by (simp add: adjacent_def)
  show ?thesis
  proof (rule set_eqI)
    fix q
    show "q \<in> {q. adjacent (r, c) q} \<longleftrightarrow> q \<in> (\<lambda>d. (r + fst d, c + snd d)) ` set offsets"
    proof
      assume "q \<in> {q. adjacent (r, c) q}"
      then have "(fst q - r, snd q - c) \<in> set offsets" using a by simp
      moreover have "q = (r + fst (fst q - r, snd q - c), c + snd (fst q - r, snd q - c))" by simp
      ultimately show "q \<in> (\<lambda>d. (r + fst d, c + snd d)) ` set offsets" by (rule rev_image_eqI)
    next
      assume "q \<in> (\<lambda>d. (r + fst d, c + snd d)) ` set offsets"
      then obtain d where "d \<in> set offsets" "q = (r + fst d, c + snd d)" by blast
      then show "q \<in> {q. adjacent (r, c) q}" using a by simp
    qed
  qed
qed

lemma flooded_mark_nonzero:
  assumes x: "cellAt b r c = Some x" and o: "\<not> isRevealed x" "\<not> isFlagged x" and nz: "neighborMines x \<noteq> 0"
  shows "flooded b (setCell b r c (x\<lparr>isRevealed := True\<rparr>)) {(r, c)}"
proof (rule floodedI)
  let ?b1 = "setCell b r c (x\<lparr>isRevealed := True\<rparr>)"
  show "fixedPart ?b1 = fixedPart b" by (rule fixedPart_setCell[OF x])
  have op: "openable b (r, c)" using x o by (simp add: openable_def inBoard_def revealedAt_def flaggedAt_def)
  show "revealedAt ?b1 p" if "revealedAt b p" for p using that by (simp add: revealedAt_mark[OF x])
  show "revealedAt b p \<or> (\<exists>s \<in> {(r, c)}. p \<in> region b s)" if "revealedAt ?b1 p" for p
    using that region.start[OF op] by (auto simp: revealedAt_mark[OF x])
  show "revealedAt ?b1 q" if "revealedAt ?b1 p" "\<not> revealedAt b p" "zeroAt b p" for p q
  proof -
    from that(1,2) have "p = (r, c)" by (simp add: revealedAt_mark[OF x])
    with that(3) x nz show ?thesis by (simp add: zeroAt_def)
  qed
  show "revealedAt ?b1 s" if "s \<in> {(r, c)}" for s using that by (simp add: revealedAt_mark[OF x])
qed

lemma flooded_mark_zero:
  assumes x: "cellAt b r c = Some x" and o: "\<not> isRevealed x" "\<not> isFlagged x" and z: "neighborMines x = 0"
    and f: "flooded (setCell b r c (x\<lparr>isRevealed := True\<rparr>)) b2 {q. adjacent (r, c) q}"
  shows "flooded b b2 {(r, c)}"
proof (rule floodedI)
  let ?b1 = "setCell b r c (x\<lparr>isRevealed := True\<rparr>)"
  have f1: "fixedPart ?b1 = fixedPart b" by (rule fixedPart_setCell[OF x])
  have same: "inBoard ?b1 p = inBoard b p" "flaggedAt ?b1 p = flaggedAt b p" "zeroAt ?b1 p = zeroAt b p" for p
    using fixedPart_same[OF f1] by auto
  show "fixedPart b2 = fixedPart b" using flooded_fixed[OF f] f1 by simp
  have op: "openable b (r, c)" using x o by (simp add: openable_def inBoard_def revealedAt_def flaggedAt_def)
  have zr: "zeroAt b (r, c)" using x z by (simp add: zeroAt_def)
  have self: "(r, c) \<in> region b (r, c)" by (rule region.start[OF op])
  have op1: "openable b q" if "openable ?b1 q" for q
    using that same by (auto simp: openable_def revealedAt_mark[OF x])
  show "revealedAt b2 p" if "revealedAt b p" for p
    using flooded_mono[OF f, of p] that by (simp add: revealedAt_mark[OF x])
  show "revealedAt b p \<or> (\<exists>s \<in> {(r, c)}. p \<in> region b s)" if r2: "revealedAt b2 p" for p
  proof -
    from flooded_sound[OF f r2] show ?thesis
    proof
      assume "revealedAt ?b1 p"
      then show ?thesis using self by (auto simp: revealedAt_mark[OF x])
    next
      assume "\<exists>s \<in> {q. adjacent (r, c) q}. p \<in> region ?b1 s"
      then obtain s where s: "adjacent (r, c) s" "p \<in> region ?b1 s" by blast
      have ps: "p \<in> region b s"
        by (rule region_antimono[OF s(2)]) (simp_all add: op1 same)
      from region_start_openable[OF ps] have "openable b s" .
      from region.step[OF self zr s(1) this] have "s \<in> region b (r, c)" .
      from region_trans[OF ps this] show ?thesis by simp
    qed
  qed
  show "revealedAt b2 q"
    if h: "revealedAt b2 p" "\<not> revealedAt b p" "zeroAt b p" "adjacent p q" "inBoard b q" "\<not> flaggedAt b q"
    for p q
  proof (cases "p = (r, c)")
    case True
    with h(4) have "q \<in> {q. adjacent (r, c) q}" by simp
    moreover from h same have "inBoard ?b1 q" "\<not> flaggedAt ?b1 q" by simp_all
    ultimately show ?thesis by (rule flooded_starts[OF f])
  next
    case False
    with h(2) have "\<not> revealedAt ?b1 p" by (simp add: revealedAt_mark[OF x])
    moreover from h same have "zeroAt ?b1 p" "inBoard ?b1 q" "\<not> flaggedAt ?b1 q" by simp_all
    ultimately show ?thesis using flooded_closed[OF f h(1)] h(4) by blast
  qed
  show "revealedAt b2 s" if "s \<in> {(r, c)}" for s
    using that flooded_mono[OF f, of "(r, c)"] by (simp add: revealedAt_mark[OF x])
qed

lemma reveal_flooded:
  "grid (cur rn) \<Longrightarrow> zerosClear (cur rn) \<Longrightarrow> \<not> isMineAt (cur rn) r c \<Longrightarrow>
     revealCell env r c rn = Inr rn' \<Longrightarrow> flooded (cur rn) (cur rn') {(r, c)}"
  "grid (cur rn) \<Longrightarrow> zerosClear (cur rn) \<Longrightarrow>
     (\<forall>d \<in> set ds. \<not> isMineAt (cur rn) (r + fst d) (c + snd d)) \<Longrightarrow>
     revealAround env r c ds rn = Inr rn'' \<Longrightarrow>
     flooded (cur rn) (cur rn'') ((\<lambda>d. (r + fst d, c + snd d)) ` set ds)"
proof (induction env r c rn and env r c ds rn arbitrary: rn' and rn''
       rule: revealCell_revealAround.induct)
  case (1 env r c rn)
  let ?b = "cur rn"
  note g = "1.prems"(1) and zc = "1.prems"(2) and nm = "1.prems"(3) and run = "1.prems"(4)
  show ?case
  proof (cases "r < 0 \<or> r \<ge> int (length ?b) \<or> c < 0 \<or> c \<ge> int (length (?b ! 0))")
    case True
    with run have "rn' = rn" by (subst (asm) revealCell.simps) simp
    moreover from True guard_cellAt[OF g, of r c] have "\<not> openable ?b (r, c)"
      by (simp add: openable_def inBoard_def)
    ultimately show ?thesis using flooded_noop by simp
  next
    case False
    with guard_cellAt[OF g, of r c] obtain x where x: "cellAt ?b r c = Some x" by auto
    from nm x have notmine: "\<not> isMine x" by (simp add: isMineAt_def)
    show ?thesis
    proof (cases "isRevealed x \<or> isFlagged x")
      case True
      with run False x have "rn' = rn" by (subst (asm) revealCell.simps) simp
      moreover from True x have "\<not> openable ?b (r, c)"
        by (auto simp: openable_def revealedAt_def flaggedAt_def)
      ultimately show ?thesis using flooded_noop by simp
    next
      case op: False
      let ?b1 = "setCell ?b r c (x\<lparr>isRevealed := True\<rparr>)"
      let ?rn1 = "rn\<lparr>cur := ?b1\<rparr>"
      have f1: "fixedPart ?b1 = fixedPart ?b" by (rule fixedPart_setCell[OF x])
      show ?thesis
      proof (cases "neighborMines x = 0")
        case True
        from run False x op notmine True obtain rn2 where
          r2: "revealAround env r c offsets ?rn1 = Inr rn2"
          and r': "rn' = checkWin env (rn2\<lparr>boardSet := True\<rparr>)"
          by (subst (asm) revealCell.simps) (auto split: sum.splits)
        have g1: "grid (cur ?rn1)" using g fixedPart_grid[OF f1] by simp
        have z1: "zerosClear (cur ?rn1)" using fixedPart_zerosClear[OF f1 zc] by simp
        have m1: "\<forall>d \<in> set offsets. \<not> isMineAt (cur ?rn1) (r + fst d) (c + snd d)"
        proof
          fix d assume "d \<in> set offsets"
          with zc x notmine True have "\<not> isMineAt ?b (r + fst d) (c + snd d)"
            unfolding zerosClear_def by blast
          then show "\<not> isMineAt (cur ?rn1) (r + fst d) (c + snd d)"
            by (simp add: fixedPart_isMineAt[OF f1])
        qed
        from "1.IH"[OF False x op notmine True g1 z1 m1 r2]
        have "flooded ?b1 (cur rn2) {q. adjacent (r, c) q}"
          by (simp add: adjacent_offsets)
        from flooded_mark_zero[OF x _ _ True this] op r' show ?thesis
          by (simp add: cur_checkWin)
      next
        case nz: False
        from run False x op notmine nz have "rn' = checkWin env (?rn1\<lparr>boardSet := True\<rparr>)"
          by (subst (asm) revealCell.simps) auto
        with flooded_mark_nonzero[OF x _ _ nz] op show ?thesis
          by (simp add: cur_checkWin)
      qed
    qed
  qed
next
  case (2 env r c rn)
  then show ?case by (simp add: flooded_refl)
next
  case (3 env r c d ds rn)
  note g = "3.prems"(1) and zc = "3.prems"(2) and nm = "3.prems"(3) and run = "3.prems"(4)
  from run obtain rn1 where r1: "revealCell env (r + fst d) (c + snd d) rn = Inr rn1"
    and r2: "revealAround env r c ds rn1 = Inr rn''"
    by (auto split: sum.splits)
  from nm have "\<not> isMineAt (cur rn) (r + fst d) (c + snd d)" by simp
  from "3.IH"(1)[OF g zc this r1]
  have fl1: "flooded (cur rn) (cur rn1) {(r + fst d, c + snd d)}" .
  note f1 = flooded_fixed[OF fl1]
  have g1: "grid (cur rn1)" using g fixedPart_grid[OF f1] by simp
  have z1: "zerosClear (cur rn1)" by (rule fixedPart_zerosClear[OF f1 zc])
  have m1: "\<forall>e \<in> set ds. \<not> isMineAt (cur rn1) (r + fst e) (c + snd e)"
    using nm by (simp add: fixedPart_isMineAt[OF f1])
  from "3.IH"(2)[OF r1 g1 z1 m1 r2]
  have fl2: "flooded (cur rn1) (cur rn'') ((\<lambda>d. (r + fst d, c + snd d)) ` set ds)" .
  from flooded_trans[OF fl1 fl2] show ?case by simp
qed

lemma flooded_exact:
  assumes f: "flooded b b' {s}" and o: "openable b s"
  shows "revealedAt b' p \<longleftrightarrow> revealedAt b p \<or> p \<in> region b s"
proof
  assume "revealedAt b' p"
  from flooded_sound[OF f this] show "revealedAt b p \<or> p \<in> region b s" by simp
next
  have same: "inBoard b' q = inBoard b q" "flaggedAt b' q = flaggedAt b q" for q
    using fixedPart_same[OF flooded_fixed[OF f]] by auto
  have reg: "revealedAt b' q" if "q \<in> region b s" for q
    using that
  proof (induction rule: region.induct)
    case start
    from o flooded_starts[OF f, of s] show ?case by (simp add: openable_def)
  next
    case (step p q)
    from region_openable[OF step.hyps(1)] have "\<not> revealedAt b p" by (simp add: openable_def)
    from flooded_closed[OF f step.IH this step.hyps(2,3)] step.hyps(4)
    show ?case by (simp add: openable_def)
  qed
  assume "revealedAt b p \<or> p \<in> region b s"
  then show "revealedAt b' p" using flooded_mono[OF f] reg by blast
qed

lemma unrevealed_concat: "unrevealed b = length (filter (\<lambda>x. \<not> isRevealed x) (concat b))"
  by (simp add: unrevealed_def count_concat hidden_def[abs_def])

lemma unrevealed_mark:
  assumes "cellAt b r c = Some x" "\<not> isRevealed x"
  shows "Suc (unrevealed (setCell b r c (x\<lparr>isRevealed := True\<rparr>))) = unrevealed b"
  using count_setCell[OF assms(1), of "\<lambda>x. \<not> isRevealed x" "x\<lparr>isRevealed := True\<rparr>"] assms(2)
  by (simp add: unrevealed_concat)

lemma sent_checkWin:
  "socketOpen env \<Longrightarrow> \<not> isRemoteUpdate env \<Longrightarrow> length (sent (checkWin env rn)) = Suc (length (sent rn))"
  by (simp add: checkWin_def emitState_def emit_def Let_def)

lemma reveal_reports:
  "grid (cur rn) \<Longrightarrow> zerosClear (cur rn) \<Longrightarrow> \<not> isMineAt (cur rn) r c \<Longrightarrow>
     socketOpen env \<Longrightarrow> \<not> isRemoteUpdate env \<Longrightarrow> revealCell env r c rn = Inr rn' \<Longrightarrow>
     length (sent rn') + unrevealed (cur rn') = length (sent rn) + unrevealed (cur rn)"
  "grid (cur rn) \<Longrightarrow> zerosClear (cur rn) \<Longrightarrow>
     (\<forall>d \<in> set ds. \<not> isMineAt (cur rn) (r + fst d) (c + snd d)) \<Longrightarrow>
     socketOpen env \<Longrightarrow> \<not> isRemoteUpdate env \<Longrightarrow> revealAround env r c ds rn = Inr rn'' \<Longrightarrow>
     length (sent rn'') + unrevealed (cur rn'') = length (sent rn) + unrevealed (cur rn)"
proof (induction env r c rn and env r c ds rn arbitrary: rn' and rn''
       rule: revealCell_revealAround.induct)
  case (1 env r c rn)
  let ?b = "cur rn"
  note g = "1.prems"(1) and zc = "1.prems"(2) and nm = "1.prems"(3)
    and so = "1.prems"(4) and ru = "1.prems"(5) and run = "1.prems"(6)
  show ?case
  proof (cases "r < 0 \<or> r \<ge> int (length ?b) \<or> c < 0 \<or> c \<ge> int (length (?b ! 0))")
    case True
    with run have "rn' = rn" by (subst (asm) revealCell.simps) simp
    then show ?thesis by simp
  next
    case False
    with guard_cellAt[OF g, of r c] obtain x where x: "cellAt ?b r c = Some x" by auto
    from nm x have notmine: "\<not> isMine x" by (simp add: isMineAt_def)
    show ?thesis
    proof (cases "isRevealed x \<or> isFlagged x")
      case True
      with run False x have "rn' = rn" by (subst (asm) revealCell.simps) simp
      then show ?thesis by simp
    next
      case op: False
      let ?b1 = "setCell ?b r c (x\<lparr>isRevealed := True\<rparr>)"
      let ?rn1 = "rn\<lparr>cur := ?b1\<rparr>"
      have f1: "fixedPart ?b1 = fixedPart ?b" by (rule fixedPart_setCell[OF x])
      have u1: "Suc (unrevealed ?b1) = unrevealed ?b" using unrevealed_mark[OF x] op by simp
      show ?thesis
      proof (cases "neighborMines x = 0")
        case True
        from run False x op notmine True obtain rn2 where
          r2: "revealAround env r c offsets ?rn1 = Inr rn2"
          and r': "rn' = checkWin env (rn2\<lparr>boardSet := True\<rparr>)"
          by (subst (asm) revealCell.simps) (auto split: sum.splits)
        have g1: "grid (cur ?rn1)" using g fixedPart_grid[OF f1] by simp
        have z1: "zerosClear (cur ?rn1)" using fixedPart_zerosClear[OF f1 zc] by simp
        have m1: "\<forall>d \<in> set offsets. \<not> isMineAt (cur ?rn1) (r + fst d) (c + snd d)"
        proof
          fix d assume "d \<in> set offsets"
          with zc x notmine True have "\<not> isMineAt ?b (r + fst d) (c + snd d)"
            unfolding zerosClear_def by blast
          then show "\<not> isMineAt (cur ?rn1) (r + fst d) (c + snd d)"
            by (simp add: fixedPart_isMineAt[OF f1])
        qed
        from "1.IH"[OF False x op notmine True g1 z1 m1 so ru r2]
        have "length (sent rn2) + unrevealed (cur rn2) = length (sent rn) + unrevealed ?b1"
          by simp
        with u1 r' sent_checkWin[OF so ru, of "rn2\<lparr>boardSet := True\<rparr>"] show ?thesis
          by (simp add: cur_checkWin)
      next
        case nz: False
        from run False x op notmine nz have "rn' = checkWin env (?rn1\<lparr>boardSet := True\<rparr>)"
          by (subst (asm) revealCell.simps) auto
        with u1 sent_checkWin[OF so ru, of "?rn1\<lparr>boardSet := True\<rparr>"] show ?thesis
          by (simp add: cur_checkWin)
      qed
    qed
  qed
next
  case (2 env r c rn)
  then show ?case by simp
next
  case (3 env r c d ds rn)
  note g = "3.prems"(1) and zc = "3.prems"(2) and nm = "3.prems"(3)
    and so = "3.prems"(4) and ru = "3.prems"(5) and run = "3.prems"(6)
  from run obtain rn1 where r1: "revealCell env (r + fst d) (c + snd d) rn = Inr rn1"
    and r2: "revealAround env r c ds rn1 = Inr rn''"
    by (auto split: sum.splits)
  from nm have n0: "\<not> isMineAt (cur rn) (r + fst d) (c + snd d)" by simp
  note f1 = reveal_fixedPart(1)[OF r1]
  have g1: "grid (cur rn1)" using g fixedPart_grid[OF f1] by simp
  have z1: "zerosClear (cur rn1)" by (rule fixedPart_zerosClear[OF f1 zc])
  have m1: "\<forall>e \<in> set ds. \<not> isMineAt (cur rn1) (r + fst e) (c + snd e)"
    using nm by (simp add: fixedPart_isMineAt[OF f1])
  from "3.IH"(1)[OF g zc n0 so ru r1] "3.IH"(2)[OF r1 g1 z1 m1 so ru r2]
  show ?case by simp
qed

text \<open>
  C2 (as the code has it). On a grid whose zero cells have no mine around them, revealing
  an unrevealed, unflagged cell that is not a mine returns, changes \<open>isRevealed\<close> only,
  and leaves revealed exactly the cells revealed before and the cells reached from the
  clicked one through unrevealed, unflagged zero cells. Each call that passes the guard
  marks one cell and reports once: with an open socket and no suppression, the messages
  sent and the cells still hidden add up to what they were.
\<close>

theorem flood_fill_region:
  assumes "grid (cur rn)" and "zerosClear (cur rn)" and "cellAt (cur rn) r c = Some x"
    and "\<not> isMine x" and "\<not> isRevealed x" and "\<not> isFlagged x"
  shows "\<exists>rn'. revealCell env r c rn = Inr rn'
          \<and> fixedPart (cur rn') = fixedPart (cur rn)
          \<and> (\<forall>p. revealedAt (cur rn') p \<longleftrightarrow> revealedAt (cur rn) p \<or> p \<in> region (cur rn) (r, c))
          \<and> (socketOpen env \<and> \<not> isRemoteUpdate env \<longrightarrow>
                length (sent rn') + unrevealed (cur rn') = length (sent rn) + unrevealed (cur rn))"
proof -
  from reveal_total(1)[OF assms(1)] obtain rn' where run: "revealCell env r c rn = Inr rn'"
    by blast
  have nm: "\<not> isMineAt (cur rn) r c" using assms(3,4) by (simp add: isMineAt_def)
  have op: "openable (cur rn) (r, c)"
    using assms(3,5,6) by (simp add: openable_def inBoard_def revealedAt_def flaggedAt_def)
  from reveal_flooded(1)[OF assms(1,2) nm run]
  have fl: "flooded (cur rn) (cur rn') {(r, c)}" .
  have "\<forall>p. revealedAt (cur rn') p \<longleftrightarrow> revealedAt (cur rn) p \<or> p \<in> region (cur rn) (r, c)"
    using flooded_exact[OF fl op] by blast
  moreover have "socketOpen env \<and> \<not> isRemoteUpdate env \<longrightarrow>
      length (sent rn') + unrevealed (cur rn') = length (sent rn) + unrevealed (cur rn)"
    using reveal_reports(1)[OF assms(1,2) nm _ _ run] by blast
  ultimately show ?thesis using run flooded_fixed[OF fl] by blast
qed

lemma counted_zerosClear:
  assumes "\<forall>r c x. cellAt b r c = Some x \<longrightarrow>
             neighborMines x = (if isMine x then 0 else bruteCount b r c)"
  shows "zerosClear b"
  unfolding zerosClear_def
proof (intro allI impI, elim conjE)
  fix r c x d
  assume x: "cellAt b r c = Some x" and nm: "\<not> isMine x" and z: "neighborMines x = 0"
    and d: "d \<in> set offsets"
  from assms x nm z have "bruteCount b r c = 0" by auto
  then have ar: "\<forall>e \<in> set around. \<not> isMineAt b (r + fst e) (c + snd e)"
    by (simp add: bruteCount_def filter_empty_conv)
  have "set offsets = insert (0, 0) (set around)"
    by (auto simp: offsets_def around_def)
  with d have "d = (0, 0) \<or> d \<in> set around" by simp
  then show "\<not> isMineAt b (r + fst d) (c + snd d)"
  proof
    assume "d = (0, 0)"
    with x nm show ?thesis by (simp add: isMineAt_def)
  next
    assume "d \<in> set around"
    with ar show ?thesis by blast
  qed
qed

definition floodBoard :: board where
  "floodBoard = [[blankCell, blankCell, blankCell\<lparr>neighborMines := 1\<rparr>, blankCell\<lparr>isMine := True\<rparr>]]"

definition floodRun :: run where
  "floodRun = \<lparr>cur = floodBoard, pending = Playing, boardSet = False, sent = []\<rparr>"

definition flaggedBoard :: board where
  "flaggedBoard = [[blankCell, blankCell\<lparr>isFlagged := True\<rparr>, blankCell]]"

lemma floodBoard_cells:
  assumes "cellAt floodBoard r c = Some x"
  shows "r = 0 \<and> (c = 0 \<and> x = blankCell \<or> c = 1 \<and> x = blankCell
                  \<or> c = 2 \<and> x = blankCell\<lparr>neighborMines := 1\<rparr>
                  \<or> c = 3 \<and> x = blankCell\<lparr>isMine := True\<rparr>)"
proof -
  from cellAt_SomeD[OF assms] have r: "0 \<le> r" "nat r < length floodBoard"
    and c: "0 \<le> c" "nat c < length (floodBoard ! nat r)"
    and x: "x = floodBoard ! nat r ! nat c"
    by blast+
  from r have r0: "r = 0" by (simp add: floodBoard_def)
  with c have "nat c < 4" by (simp add: floodBoard_def)
  with c(1) have "c = 0 \<or> c = 1 \<or> c = 2 \<or> c = 3" by auto
  with r0 x show ?thesis by (auto simp: floodBoard_def)
qed

lemma floodBoard_zerosClear: "zerosClear floodBoard"
  unfolding zerosClear_def
proof (intro allI impI, elim conjE)
  fix r c x d
  assume x: "cellAt floodBoard r c = Some x" and nm: "\<not> isMine x" and z: "neighborMines x = 0"
    and d: "d \<in> set offsets"
  from floodBoard_cells[OF x] nm z have rc: "r = 0" "c = 0 \<or> c = 1"
    by (auto simp: blankCell_def)
  from d have "snd d \<le> 1" by (auto simp: offsets_def)
  with rc have le: "c + snd d \<le> 2" by auto
  show "\<not> isMineAt floodBoard (r + fst d) (c + snd d)"
  proof (cases "cellAt floodBoard (r + fst d) (c + snd d)")
    case None
    then show ?thesis by (simp add: isMineAt_def)
  next
    case (Some y)
    from floodBoard_cells[OF Some] le have "\<not> isMine y" by (auto simp: blankCell_def)
    with Some show ?thesis by (simp add: isMineAt_def)
  qed
qed

theorem flood_fill_region_witness:
  "\<exists>rn'. revealCell demoSession 0 0 floodRun = Inr rn'
      \<and> map (map isRevealed) (cur rn') = [[True, True, True, False]]
      \<and> (\<forall>p. revealedAt (cur rn') p \<longleftrightarrow> p \<in> region floodBoard (0, 0))
      \<and> length (sent rn') = 3"
proof -
  have g: "grid (cur floodRun)" by (simp add: floodRun_def floodBoard_def grid_def)
  have z: "zerosClear (cur floodRun)" using floodBoard_zerosClear by (simp add: floodRun_def)
  have x: "cellAt (cur floodRun) 0 0 = Some blankCell"
    by (simp add: floodRun_def floodBoard_def cellAt_def)
  have o: "\<not> isMine blankCell" "\<not> isRevealed blankCell" "\<not> isFlagged blankCell"
    by (simp_all add: blankCell_def)
  from flood_fill_region[OF g z x o, of demoSession] obtain rn' where
    run: "revealCell demoSession 0 0 floodRun = Inr rn'"
    and reg: "\<forall>p. revealedAt (cur rn') p \<longleftrightarrow> revealedAt (cur floodRun) p \<or> p \<in> region (cur floodRun) (0, 0)"
    by blast
  have none: "\<not> revealedAt (cur floodRun) p" for p
  proof (cases "cellAt floodBoard (fst p) (snd p)")
    case None
    then show ?thesis by (simp add: revealedAt_def floodRun_def)
  next
    case (Some y)
    from floodBoard_cells[OF Some] have "\<not> isRevealed y" by (auto simp: blankCell_def)
    with Some show ?thesis by (simp add: revealedAt_def floodRun_def)
  qed
  have "(case revealCell demoSession 0 0 floodRun of
           Inl err \<Rightarrow> False
         | Inr rn' \<Rightarrow> map (map isRevealed) (cur rn') = [[True, True, True, False]]
                       \<and> length (sent rn') = 3)"
    by code_simp
  with run have "map (map isRevealed) (cur rn') = [[True, True, True, False]]" "length (sent rn') = 3"
    by simp_all
  with run reg none show ?thesis by (simp add: floodRun_def)
qed

text \<open>
  C2 as stated fails on a board with a flag: the three cells of \<open>flaggedBoard\<close> are zero
  cells and none is a mine, the middle one is flagged, and revealing \<open>(0, 0)\<close> reveals
  neither the flagged cell nor the zero cell behind it.
\<close>

theorem flood_fill_flag_counterexample:
  "map (map neighborMines) flaggedBoard = [[0, 0, 0]]
   \<and> map (map isMine) flaggedBoard = [[False, False, False]]
   \<and> map (map isRevealed) flaggedBoard = [[False, False, False]]
   \<and> (case revealCell demoSession 0 0
              \<lparr>cur = flaggedBoard, pending = Playing, boardSet = False, sent = []\<rparr> of
         Inl err \<Rightarrow> False
       | Inr rn' \<Rightarrow> map (map isRevealed) (cur rn') = [[True, False, False]])"
  by code_simp

section \<open>Remote requests\<close>

lemma mountClosure_handleCellClick:
  "handleCellClick r c True draws (mountClosure s) = startGame draws r c (mountClosure s)"
  by (simp add: handleCellClick_def mountClosure_def)

lemma onRemoteFlag_ignored: "onRemoteFlag r c s = Inr s"
  by (simp add: onRemoteFlag_def handleRightClick_def mountClosure_def)

text \<open>
  C5. A reveal request for coordinates outside the board is not without effect: the
  bounds guard sits in \<open>revealCell\<close>, and \<open>startGame\<close> has set the status to playing
  before it is reached. A freshly mounted client that receives \<open>remote-click\<close> for
  \<open>(50, 0)\<close> ends in status playing, on its blank board (the board with the mines is
  dropped, \<open>setBoard\<close> not being called). The handler gives the same when called in that
  state.
\<close>

theorem remote_click_out_of_bounds:
  "cellAt (board (mounted ''r'')) 50 0 = None
   \<and> onRemoteClick 50 0 demoDraws (mounted ''r'') = Inr ((mounted ''r'')\<lparr>status := Playing\<rparr>)
   \<and> handleCellClick 50 0 True demoDraws (mounted ''r'') = Inr ((mounted ''r'')\<lparr>status := Playing\<rparr>)"
  by code_simp

text \<open>
  C7. A reveal request that comes through the socket is not ignored once the game is
  lost. A client clicks \<open>(1, 1)\<close> and then the mine at \<open>(0, 0)\<close>: the status is lost, and
  a further click on the page is ignored. A \<open>remote-click\<close> for \<open>(1, 1)\<close> then runs
  \<open>startGame\<close> in the listeners' idle closure: the status becomes playing and the board
  is replaced.
\<close>

theorem remote_click_after_loss:
  "(case handleCellClick 1 1 False demoDraws (mounted ''r'') of
      Inl err \<Rightarrow> False
    | Inr s1 \<Rightarrow>
        (case handleCellClick 0 0 False [] s1 of
           Inl err \<Rightarrow> False
         | Inr s2 \<Rightarrow>
             status s2 = Lost
             \<and> handleCellClick 2 2 False [] s2 = Inr s2
             \<and> (case onRemoteClick 1 1 demoDraws s2 of
                   Inl err \<Rightarrow> False
                 | Inr s3 \<Rightarrow> status s3 = Playing \<and> board s3 \<noteq> board s2)))"
  by code_simp

section \<open>The mine-remaining counter\<close>






lemma bitlen_range: "2 ^ k \<le> n \<Longrightarrow> n < 2 ^ Suc k \<Longrightarrow> bitlen n = Suc k"
proof (induction k arbitrary: n)
  case 0
  then have "n = Suc 0" by simp
  then show ?case by (simp add: bitlen.simps[of "Suc 0"] bitlen.simps[of 0])
next
  case (Suc k)
  from Suc.prems have "2 ^ k \<le> n div 2" "n div 2 < 2 ^ Suc k" by auto
  from Suc.IH[OF this] Suc.prems show ?case by (subst bitlen.simps) auto
qed

lemma toNumber_rounds:
  "toNumber (2 ^ 53 + 1) = 2 ^ 53" "toNumber (2 ^ 53 + 3) = 2 ^ 53 + 4"
  "toNumber (- (2 ^ 53) - 1) = - (2 ^ 53)"
proof -
  have b: "bitlen (nat \<bar>2 ^ 53 + 1 :: int\<bar>) = 54" "bitlen (nat \<bar>2 ^ 53 + 3 :: int\<bar>) = 54"
    "bitlen (nat \<bar>- (2 ^ 53) - 1 :: int\<bar>) = 54"
    by (rule bitlen_range[where k = 53, simplified]; simp)+
  show "toNumber (2 ^ 53 + 1) = 2 ^ 53" "toNumber (2 ^ 53 + 3) = 2 ^ 53 + 4"
    "toNumber (- (2 ^ 53) - 1) = - (2 ^ 53)"
    using b by (simp_all add: toNumber_def Let_def)
qed













end
